theory Spec2Isabelle
  imports Main
begin

section \<open>The board\<close>

text \<open>
  The game keeps its world in \<^verbatim>\<open>vector<vector<char>> space\<close>: a list of rows, each a
  list of glyphs. All indices of the program are non-negative in every state it
  reaches, so the C++ \<^verbatim>\<open>int\<close> indices are natural numbers here; the one
  subtraction that can reach zero (\<^verbatim>\<open>b.first - 1\<close>) is guarded by
  \<^verbatim>\<open>new_x >= 1\<close>, which fails for the truncated \<open>0\<close> exactly as it does for \<open>-1\<close>.
  Reading or writing outside the vector is undefined behaviour in C++; the theorems
  below are stated for boards of the size \<^verbatim>\<open>main\<close> allocates, where every access
  of the program is in range.
\<close>

type_synonym board = "char list list"

abbreviation EMPTY :: char where "EMPTY \<equiv> CHR '' ''"
abbreviation ENEMY :: char where "ENEMY \<equiv> CHR ''#''"
abbreviation SHOOTER :: char where "SHOOTER \<equiv> CHR ''A''"
abbreviation BULLET :: char where "BULLET \<equiv> CHR ''.''"

definition rows :: nat where "rows = 30"
definition cols :: nat where "cols = 160"

definition cell :: "board \<Rightarrow> nat \<Rightarrow> nat \<Rightarrow> char" where
  "cell space i j = space ! i ! j"

definition set_cell :: "board \<Rightarrow> nat \<Rightarrow> nat \<Rightarrow> char \<Rightarrow> board" where
  "set_cell space i j c = space[i := (space ! i)[j := c]]"

section \<open>Terminal and standard streams\<close>

text \<open>
  The part of the operating system the program touches: the attributes of the
  terminal on stdin (only \<^verbatim>\<open>c_lflag\<close> is changed), the two \<^verbatim>\<open>static termios\<close>
  variables of \<^verbatim>\<open>set_terminal_raw_mode\<close>, the file status flags of stdin, and the
  bytes written to stdout.
\<close>

datatype lflag = ICANON | ECHO | OtherLflag nat
datatype fdflag = O_NONBLOCK | OtherFdflag nat

record termios =
  c_lflag :: "lflag set"

record world =
  tty :: termios
  oldt :: termios
  newt :: termios
  stdin_flags :: "fdflag set"
  out :: string

definition set_terminal_raw_mode :: "bool \<Rightarrow> world \<Rightarrow> world" where
  "set_terminal_raw_mode enable w =
     (if enable then
        (let w1 = w\<lparr>oldt := tty w\<rparr>;
             w2 = w1\<lparr>newt := oldt w1\<rparr>;
             w3 = w2\<lparr>newt := (newt w2)\<lparr>c_lflag := c_lflag (newt w2) - {ICANON, ECHO}\<rparr>\<rparr>
         in w3\<lparr>tty := newt w3\<rparr>)
      else w\<lparr>tty := oldt w\<rparr>)"

definition set_non_blocking_input :: "bool \<Rightarrow> world \<Rightarrow> world" where
  "set_non_blocking_input enable w =
     (let flags = stdin_flags w in
      if enable then w\<lparr>stdin_flags := flags \<union> {O_NONBLOCK}\<rparr>
      else w\<lparr>stdin_flags := flags - {O_NONBLOCK}\<rparr>)"

definition cout :: "string \<Rightarrow> world \<Rightarrow> world" where
  "cout text w = w\<lparr>out := out w @ text\<rparr>"

definition clear_screen :: string where
  "clear_screen = [CHR 0x1B] @ ''[2J'' @ [CHR 0x1B] @ ''[1;1H''"

definition endl :: string where
  "endl = [CHR 0x0A]"

section \<open>Enemy descent: \<^verbatim>\<open>update_board\<close>\<close>

text \<open>The body of the inner loop before the loss check: one enemy moves down one cell.\<close>

definition descend_cell :: "board \<Rightarrow> nat \<Rightarrow> nat \<Rightarrow> board" where
  "descend_cell space i j =
     (if cell space i j = ENEMY \<and> cell space (i + 1) j = EMPTY
      then set_cell (set_cell space i j EMPTY) (i + 1) j ENEMY
      else space)"

text \<open>
  The inner loop over the columns \<open>j\<close> of row \<open>i\<close>. \<open>Inl\<close> is the board at the
  moment the loss check fires (the program exits there), \<open>Inr\<close> the board when the
  row is finished.
\<close>

fun row_loop :: "board \<Rightarrow> nat \<Rightarrow> nat list \<Rightarrow> board + board" where
  "row_loop space i [] = Inr space"
| "row_loop space i (j # js) =
     (let space' = descend_cell space i j in
      if cell space' 29 j = ENEMY then Inl space'
      else row_loop space' i js)"

text \<open>The outer loop over the rows, in the order the list gives.\<close>

fun board_loop :: "board \<Rightarrow> nat list \<Rightarrow> board + board" where
  "board_loop space [] = Inr space"
| "board_loop space (i # rs) =
     (case row_loop space i [1 ..< length (space ! 0) - 1] of
        Inl lost \<Rightarrow> Inl lost
      | Inr space' \<Rightarrow> board_loop space' rs)"

text \<open>Rows \<open>size - 2\<close> down to \<open>1\<close>.\<close>

definition descend :: "board \<Rightarrow> board + board" where
  "descend space = board_loop space (rev [1 ..< length space - 1])"

definition you_lost :: "world \<Rightarrow> world" where
  "you_lost w =
     cout (''You lost'' @ endl)
       (cout clear_screen (set_non_blocking_input False (set_terminal_raw_mode False w)))"

text \<open>
  \<^verbatim>\<open>update_board\<close>: \<open>Inl\<close> is \<^verbatim>\<open>exit(0)\<close> after the loss message, with the board and
  the world as they are at that moment; \<open>Inr\<close> is the normal return.
\<close>

definition update_board :: "board \<Rightarrow> world \<Rightarrow> (board \<times> world) + board" where
  "update_board space w =
     (case descend space of
        Inl lost \<Rightarrow> Inl (lost, you_lost w)
      | Inr space' \<Rightarrow> Inr space')"

section \<open>Rendering: \<^verbatim>\<open>print_board\<close>\<close>

definition render_cell :: "board \<Rightarrow> nat \<Rightarrow> nat \<Rightarrow> nat \<Rightarrow> nat \<Rightarrow> char" where
  "render_cell space rws cls i j =
     (if (i = 0 \<or> i = rws - 1 \<or> j = 0 \<or> j = cls - 1) \<and> cell space i j = EMPTY
      then CHR ''0'' else cell space i j)"

definition print_board :: "board \<Rightarrow> world \<Rightarrow> world" where
  "print_board space w =
     (let rws = length space; cls = length (space ! 0) in
      cout (concat (map (\<lambda>i. map (render_cell space rws cls i) [0 ..< cls] @ [CHR 0x0A])
                        [0 ..< rws]))
        (cout clear_screen w))"

section \<open>The main loop\<close>

record state =
  space :: board
  shooter_position :: nat
  bullets :: "(nat \<times> nat) list"
  last_bullet_time :: int
  last_deploy_time :: int
  last_frame_time :: int
  os :: world

text \<open>
  What one iteration reads from outside: the clock (\<^verbatim>\<open>steady_clock::now()\<close>, in
  nanoseconds), the key (\<^verbatim>\<open>get_keypress()\<close>, \<open>CHR 0\<close> when none is pending) and the
  column \<^verbatim>\<open>generate_random()\<close> would return if it is called in this iteration.
\<close>

record input =
  now :: int
  move :: char
  random_column :: nat

text \<open>\<^verbatim>\<open>duration_cast\<close> truncates towards zero.\<close>

definition trunc_div :: "int \<Rightarrow> int \<Rightarrow> int" where
  "trunc_div a b = (if 0 \<le> a then a div b else - ((- a) div b))"

definition milliseconds :: "int \<Rightarrow> int" where
  "milliseconds d = trunc_div d 1000000"

definition seconds :: "int \<Rightarrow> int" where
  "seconds d = trunc_div d 1000000000"

datatype reason = Quit | Lost

datatype outcome = Running state | Exited reason state nat

text \<open>Lines 121--124: the firing gate.\<close>

definition fire :: "int \<Rightarrow> state \<Rightarrow> state" where
  "fire t s =
     (if milliseconds (t - last_bullet_time s) \<ge> 100
      then s\<lparr>bullets := bullets s @ [(27, shooter_position s)], last_bullet_time := t\<rparr>
      else s)"

text \<open>Lines 130--144: the switch on the key; \<open>None\<close> is the \<^verbatim>\<open>return 0\<close> of \<open>q\<close>.\<close>

definition switch_move :: "char \<Rightarrow> nat \<Rightarrow> nat option" where
  "switch_move m p =
     (if m = CHR ''a'' then Some (if p > 1 then p - 1 else p)
      else if m = CHR ''d'' then Some (if p < cols - 2 then p + 1 else p)
      else if m = CHR ''q'' then None
      else Some p)"

definition quit :: "world \<Rightarrow> world" where
  "quit w = cout (''Quit.'' @ [CHR 0x0A])
              (set_non_blocking_input False (set_terminal_raw_mode False w))"

text \<open>Lines 149--154: the spawn gate.\<close>

definition deploy :: "int \<Rightarrow> nat \<Rightarrow> state \<Rightarrow> state" where
  "deploy t deploy_position s =
     (if seconds (t - last_deploy_time s) \<ge> 2
      then s\<lparr>space := set_cell (space s) 1 deploy_position ENEMY, last_deploy_time := t\<rparr>
      else s)"

text \<open>Lines 162--166: erase the marks of the bullets.\<close>

fun erase_bullets :: "board \<Rightarrow> (nat \<times> nat) list \<Rightarrow> board" where
  "erase_bullets sp [] = sp"
| "erase_bullets sp (b # bs) =
     erase_bullets
       (if cell sp (fst b) (snd b) = BULLET then set_cell sp (fst b) (snd b) EMPTY else sp) bs"

text \<open>
  Lines 168--183: every bullet moves up; the second argument is \<^verbatim>\<open>new_bullets\<close>
  as built so far.
\<close>

fun advance_bullets ::
  "board \<Rightarrow> (nat \<times> nat) list \<Rightarrow> (nat \<times> nat) list \<Rightarrow> board \<times> (nat \<times> nat) list" where
  "advance_bullets sp new_bullets [] = (sp, new_bullets)"
| "advance_bullets sp new_bullets (b # bs) =
     (let new_x = fst b - 1; y = snd b in
      if new_x \<ge> 1 then
        if cell sp new_x y = ENEMY then advance_bullets (set_cell sp new_x y EMPTY) new_bullets bs
        else advance_bullets sp (new_bullets @ [(new_x, y)]) bs
      else advance_bullets sp new_bullets bs)"

text \<open>Lines 185--188: draw the marks of the new bullets.\<close>

fun draw_bullets :: "board \<Rightarrow> (nat \<times> nat) list \<Rightarrow> board" where
  "draw_bullets sp [] = sp"
| "draw_bullets sp (b # bs) = draw_bullets (set_cell sp (fst b) (snd b) BULLET) bs"

text \<open>Lines 162--189 together: one advancement step of the bullets.\<close>

definition bullet_step :: "board \<Rightarrow> (nat \<times> nat) list \<Rightarrow> board \<times> (nat \<times> nat) list" where
  "bullet_step sp bs =
     (let (sp', new_bullets) = advance_bullets (erase_bullets sp bs) [] bs
      in (draw_bullets sp' new_bullets, new_bullets))"

text \<open>Lines 162--193: the end of an iteration that did not exit.\<close>

definition frame :: "state \<Rightarrow> state" where
  "frame s =
     (let (sp, new_bullets) = bullet_step (space s) (bullets s)
      in s\<lparr>space := sp, bullets := new_bullets, os := print_board sp (os s)\<rparr>)"

text \<open>Lines 156--160 and what follows: the descent gate.\<close>

definition descent :: "int \<Rightarrow> state \<Rightarrow> outcome" where
  "descent t s =
     (if milliseconds (t - last_frame_time s) \<ge> 500 then
        (case update_board (space s) (os s) of
           Inl (lost, w) \<Rightarrow> Exited Lost (s\<lparr>space := lost, os := w\<rparr>) 0
         | Inr space' \<Rightarrow> Running (frame (s\<lparr>space := space', last_frame_time := t\<rparr>)))
      else Running (frame s))"

text \<open>One iteration of \<^verbatim>\<open>while (true)\<close>.\<close>

definition tick :: "state \<Rightarrow> input \<Rightarrow> outcome" where
  "tick s inp =
     (let s1 = fire (now inp) s;
          s2 = s1\<lparr>space := set_cell (space s1) 28 (shooter_position s1) EMPTY\<rparr>
      in case switch_move (move inp) (shooter_position s2) of
           None \<Rightarrow> Exited Quit (s2\<lparr>os := quit (os s2)\<rparr>) 0
         | Some p \<Rightarrow>
             (let s3 = s2\<lparr>shooter_position := p\<rparr>;
                  s4 = s3\<lparr>space := set_cell (space s3) 28 (shooter_position s3) SHOOTER\<rparr>;
                  s5 = deploy (now inp) (random_column inp) s4
              in descent (now inp) s5))"

text \<open>The loop over the iterations: an exit ends it, whatever input is left.\<close>

fun run :: "state \<Rightarrow> input list \<Rightarrow> outcome" where
  "run s [] = Running s"
| "run s (inp # inps) =
     (case tick s inp of
        Running s' \<Rightarrow> run s' inps
      | Exited r s' status \<Rightarrow> Exited r s' status)"

text \<open>
  Lines 101--112 of \<^verbatim>\<open>main\<close>: the state before the first iteration, given the world
  the program starts in and the three readings of the clock.
\<close>

definition start :: "world \<Rightarrow> int \<Rightarrow> int \<Rightarrow> int \<Rightarrow> state" where
  "start w t_bullet t_deploy t_frame =
     \<lparr>space = replicate rows (replicate cols EMPTY),
      shooter_position = 70,
      bullets = [],
      last_bullet_time = t_bullet,
      last_deploy_time = t_deploy,
      last_frame_time = t_frame,
      os = set_non_blocking_input True (set_terminal_raw_mode True w)\<rparr>"

section \<open>Predicates on boards and states\<close>

text \<open>The size \<^verbatim>\<open>main\<close> allocates: \<open>rows\<close> rows of \<open>cols\<close> cells each.\<close>

definition board_ok :: "board \<Rightarrow> bool" where
  "board_ok sp = (length sp = rows \<and> list_all (\<lambda>row. length row = cols) sp)"

text \<open>The board a result of the descent carries, and the state an outcome carries.\<close>

fun board_of :: "board + board \<Rightarrow> board" where
  "board_of (Inl b) = b"
| "board_of (Inr b) = b"

fun state_of :: "outcome \<Rightarrow> state" where
  "state_of (Running s) = s"
| "state_of (Exited r s status) = s"

text \<open>The cells of the border ring.\<close>

definition on_border :: "nat \<Rightarrow> nat \<Rightarrow> bool" where
  "on_border r c = (r = 0 \<or> r = rows - 1 \<or> c = 0 \<or> c = cols - 1)"

text \<open>Every cell of the border ring (rows \<open>0\<close> and \<open>29\<close>, columns \<open>0\<close> and \<open>159\<close>) is empty.\<close>

definition border_clear :: "board \<Rightarrow> bool" where
  "border_clear sp =
     (list_all (\<lambda>j. cell sp 0 j = EMPTY \<and> cell sp (rows - 1) j = EMPTY) [0 ..< cols] \<and>
      list_all (\<lambda>i. cell sp i 0 = EMPTY \<and> cell sp i (cols - 1) = EMPTY) [0 ..< rows])"

text \<open>
  The bullets between two iterations: inside the border, above the row they are fired
  from, and in strictly increasing rows (the oldest bullet first).
\<close>

definition bullets_ok :: "(nat \<times> nat) list \<Rightarrow> bool" where
  "bullets_ok bs =
     (list_all (\<lambda>b. 1 \<le> fst b \<and> fst b \<le> 26 \<and> 1 \<le> snd b \<and> snd b \<le> cols - 2) bs \<and>
      sorted_wrt (<) (map fst bs))"

definition inv :: "state \<Rightarrow> bool" where
  "inv s =
     (board_ok (space s) \<and> border_clear (space s) \<and>
      1 \<le> shooter_position s \<and> shooter_position s \<le> cols - 2 \<and>
      bullets_ok (bullets s))"

text \<open>
  The bullets when the advancement step starts: those of the last iteration and
  perhaps the one fired in row \<open>27\<close> in this iteration.
\<close>

definition bullets_live :: "(nat \<times> nat) list \<Rightarrow> bool" where
  "bullets_live bs =
     (list_all (\<lambda>b. 1 \<le> fst b \<and> fst b \<le> 27 \<and> 1 \<le> snd b \<and> snd b \<le> cols - 2) bs \<and>
      sorted_wrt (<) (map fst bs))"

text \<open>
  Lines 126--147 in one step, for a key that is not \<open>q\<close>: the old cell of the shooter
  cleared, the column set to \<open>p\<close>, the new cell written.
\<close>

definition placed :: "state \<Rightarrow> nat \<Rightarrow> state" where
  "placed s p =
     s\<lparr>shooter_position := p,
       space := set_cell (set_cell (space s) 28 (shooter_position s) EMPTY) 28 p SHOOTER\<rparr>"

text \<open>
  The state when the descent gate is reached: as between two iterations, with the
  bullet of this iteration perhaps in the list.
\<close>

definition mid :: "state \<Rightarrow> bool" where
  "mid s = (board_ok (space s) \<and> border_clear (space s) \<and>
            1 \<le> shooter_position s \<and> shooter_position s \<le> cols - 2 \<and>
            bullets_live (bullets s))"

text \<open>\<^verbatim>\<open>generate_random\<close> returns a column of \<^verbatim>\<open>uniform_int_distribution<>(1, 158)\<close>.\<close>

definition input_ok :: "input \<Rightarrow> bool" where
  "input_ok inp = (1 \<le> random_column inp \<and> random_column inp \<le> 158)"

text \<open>The number of enemy glyphs on the board.\<close>

definition enemies :: "board \<Rightarrow> nat" where
  "enemies sp = sum_list (map (\<lambda>row. count_list row ENEMY) sp)"

text \<open>The bytes the program prints last when it exits.\<close>

fun final_message :: "reason \<Rightarrow> string" where
  "final_message Quit = ''Quit.'' @ [CHR 0x0A]"
| "final_message Lost = clear_screen @ ''You lost'' @ [CHR 0x0A]"

section \<open>What the steps are said to do\<close>

text \<open>
  What the advancement step is said to do with one bullet: it moves one row up, and it
  stays alive when that row is inside the board and the cell there holds no enemy.
\<close>

definition bullet_up :: "nat \<times> nat \<Rightarrow> nat \<times> nat" where
  "bullet_up b = (fst b - 1, snd b)"

definition bullet_flies :: "board \<Rightarrow> nat \<times> nat \<Rightarrow> bool" where
  "bullet_flies sp b = (fst b - 1 \<ge> 1 \<and> cell sp (fst b - 1) (snd b) \<noteq> ENEMY)"

text \<open>The bullet meets an enemy in the cell it advances into.\<close>

definition bullet_hits :: "board \<Rightarrow> nat \<times> nat \<Rightarrow> bool" where
  "bullet_hits sp b = (fst b - 1 \<ge> 1 \<and> cell sp (fst b - 1) (snd b) = ENEMY)"

text \<open>
  Every enemy of the board \<open>cur\<close> stands where an enemy of \<open>pre\<close> stood, or one cell
  below it.
\<close>

definition one_row :: "board \<Rightarrow> board \<Rightarrow> bool" where
  "one_row pre cur =
     (\<forall>r c. cell cur r c = ENEMY \<longrightarrow>
        cell pre r c = ENEMY \<or> (1 \<le> r \<and> cell pre (r - 1) c = ENEMY))"

text \<open>
  What the descent is said to do, cell by cell, when it does not end the game. The
  cell \<open>(i, j)\<close> has given way when the row above it is processed: it was empty, or it
  held an enemy that itself moved down (the rows are processed bottom-up; row \<open>29\<close> is
  never processed).
\<close>

function vacated :: "board \<Rightarrow> nat \<Rightarrow> nat \<Rightarrow> bool" where
  "vacated sp i j =
     (if cell sp i j = EMPTY then True
      else if cell sp i j = ENEMY \<and> i < 29 then vacated sp (i + 1) j
      else False)"
  by pat_completeness auto
termination
  by (relation "measure (\<lambda>(sp, i, j). 29 - i)") auto

text \<open>The enemy at \<open>(i, j)\<close>, a cell the loops visit, moves down.\<close>

definition moves :: "board \<Rightarrow> nat \<Rightarrow> nat \<Rightarrow> bool" where
  "moves sp i j =
     (1 \<le> i \<and> i \<le> 28 \<and> 1 \<le> j \<and> j \<le> 158 \<and> cell sp i j = ENEMY \<and> vacated sp (i + 1) j)"

text \<open>The cell \<open>(r, c)\<close> after the descent: an enemy arrived, or left, or nothing happened.\<close>

definition descended :: "board \<Rightarrow> nat \<Rightarrow> nat \<Rightarrow> char" where
  "descended sp r c =
     (if 1 \<le> r \<and> moves sp (r - 1) c then ENEMY
      else if moves sp r c then EMPTY
      else cell sp r c)"

text \<open>
  The cells already visited when the loops stand in row \<open>i\<close> with the columns \<open>js\<close> still
  to come, and the board at that moment.
\<close>

definition visited :: "nat \<Rightarrow> nat list \<Rightarrow> nat \<Rightarrow> nat \<Rightarrow> bool" where
  "visited i js r c = (r > i \<or> (r = i \<and> c \<notin> set js))"

definition so_far :: "board \<Rightarrow> nat \<Rightarrow> nat list \<Rightarrow> board \<Rightarrow> bool" where
  "so_far sp i js cur =
     (\<forall>r<30. \<forall>c<160.
        cell cur r c =
          (if 1 \<le> r \<and> moves sp (r - 1) c \<and> visited i js (r - 1) c then ENEMY
           else if moves sp r c \<and> visited i js r c then EMPTY
           else cell sp r c))"

section \<open>Sample worlds, boards and inputs\<close>

text \<open>What \<^verbatim>\<open>get_keypress\<close> returns when no key is pending.\<close>

abbreviation NO_KEY :: char where "NO_KEY \<equiv> CHR 0x00"

text \<open>A terminal in canonical mode with echo, blocking reads, nothing printed yet.\<close>

definition w0 :: world where
  "w0 = \<lparr>tty = \<lparr>c_lflag = {ICANON, ECHO}\<rparr>, oldt = \<lparr>c_lflag = {}\<rparr>, newt = \<lparr>c_lflag = {}\<rparr>,
         stdin_flags = {}, out = []\<rparr>"

text \<open>An input: the clock in milliseconds, the key, the random column.\<close>

definition inp_at :: "int \<Rightarrow> char \<Rightarrow> nat \<Rightarrow> input" where
  "inp_at ms k c = \<lparr>now = ms * 1000000, move = k, random_column = c\<rparr>"

text \<open>The board \<^verbatim>\<open>main\<close> starts with, and a state of the game with a given board.\<close>

definition empty_board :: board where
  "empty_board = replicate rows (replicate cols EMPTY)"

definition state_with :: "board \<Rightarrow> state" where
  "state_with sp = (start w0 0 0 0)\<lparr>space := sp\<rparr>"

text \<open>Sample states: an enemy in the last playable row, in column \<open>5\<close> and in column \<open>69\<close>.\<close>

definition enemy_low :: state where
  "enemy_low = state_with (set_cell empty_board 28 5 ENEMY)"

definition enemy_beside :: state where
  "enemy_beside = state_with (set_cell empty_board 28 69 ENEMY)"

text \<open>A sample board: an enemy in row \<open>27\<close> right above the shooter.\<close>

definition enemy_on_shooter :: board where
  "enemy_on_shooter = set_cell (set_cell empty_board 27 70 ENEMY) 28 70 SHOOTER"

text \<open>
  Sample boards: the mark of a bullet in row \<open>26\<close> above the shooter, and two enemies
  one above the other.
\<close>

definition bullet_on_board :: board where
  "bullet_on_board = set_cell (set_cell empty_board 26 70 BULLET) 28 70 SHOOTER"

definition enemy_stack :: board where
  "enemy_stack = set_cell (set_cell empty_board 5 80 ENEMY) 6 80 ENEMY"

section \<open>Basic facts\<close>

lemma cell_set_cell:
  "cell (set_cell sp i j c) i' j' =
     (if i' = i \<and> j' = j \<and> i < length sp \<and> j < length (sp ! i) then c else cell sp i' j')"
proof (cases "i < length sp")
  case True
  then show ?thesis
    by (cases "i' = i"; cases "j < length (sp ! i)")
       (simp_all add: cell_def set_cell_def nth_list_update list_update_beyond)
next
  case False
  then show ?thesis by (simp add: cell_def set_cell_def list_update_beyond)
qed

lemma length_set_cell [simp]: "length (set_cell sp i j c) = length sp"
  by (simp add: set_cell_def)

lemma length_row_set_cell [simp]: "length (set_cell sp i j c ! k) = length (sp ! k)"
  by (cases "i < length sp"; cases "k = i") (simp_all add: set_cell_def list_update_beyond)

lemma board_ok_iff: "board_ok sp \<longleftrightarrow> length sp = 30 \<and> (\<forall>i<30. length (sp ! i) = 160)"
  by (auto simp: board_ok_def rows_def cols_def list_all_length)

lemma board_ok_set_cell [simp]: "board_ok sp \<Longrightarrow> board_ok (set_cell sp i j c)"
  by (simp add: board_ok_iff)

lemma cell_set_cell_ok:
  "board_ok sp \<Longrightarrow> i < 30 \<Longrightarrow> j < 160 \<Longrightarrow>
   cell (set_cell sp i j c) i' j' = (if i' = i \<and> j' = j then c else cell sp i' j')"
  by (simp add: cell_set_cell board_ok_iff)

lemma shooter_fire [simp]: "shooter_position (fire t s) = shooter_position s"
  by (simp add: fire_def)

lemma shooter_deploy [simp]: "shooter_position (deploy t c s) = shooter_position s"
  by (simp add: deploy_def)

lemma shooter_frame [simp]: "shooter_position (frame s) = shooter_position s"
  by (simp add: frame_def split: prod.splits)

lemma shooter_descent [simp]: "shooter_position (state_of (descent t s)) = shooter_position s"
  by (simp add: descent_def split: sum.splits prod.splits)

lemma shooter_tick:
  "shooter_position (state_of (tick s inp)) =
     (case switch_move (move inp) (shooter_position s) of
        None \<Rightarrow> shooter_position s | Some p \<Rightarrow> p)"
  by (simp add: tick_def Let_def split: option.splits)

subsection \<open>The shooter's column\<close>

lemma switch_move_range:
  "1 \<le> p \<Longrightarrow> p \<le> cols - 2 \<Longrightarrow> switch_move m p = Some q \<Longrightarrow> 1 \<le> q \<and> q \<le> cols - 2"
  by (auto simp: switch_move_def cols_def split: if_splits)

lemma shooter_tick_range:
  assumes "1 \<le> shooter_position s" "shooter_position s \<le> cols - 2"
  shows "1 \<le> shooter_position (state_of (tick s inp)) \<and>
         shooter_position (state_of (tick s inp)) \<le> cols - 2"
  using assms switch_move_range [of "shooter_position s" "move inp"]
  by (auto simp: shooter_tick split: option.splits)

lemma shooter_run_range:
  "1 \<le> shooter_position s \<Longrightarrow> shooter_position s \<le> cols - 2 \<Longrightarrow>
   1 \<le> shooter_position (state_of (run s inps)) \<and>
   shooter_position (state_of (run s inps)) \<le> cols - 2"
proof (induction inps arbitrary: s)
  case Nil
  then show ?case by simp
next
  case (Cons inp inps)
  show ?case
  proof (cases "tick s inp")
    case (Running s')
    with shooter_tick_range [OF Cons.prems, of inp]
    have "1 \<le> shooter_position s'" "shooter_position s' \<le> cols - 2" by simp_all
    from Cons.IH [OF this] Running show ?thesis by simp
  next
    case (Exited r s' st)
    with shooter_tick_range [OF Cons.prems, of inp] show ?thesis by simp
  qed
qed

subsection \<open>Rules for the loops of the descent\<close>

lemma board_ok_descend_cell [simp]: "board_ok sp \<Longrightarrow> board_ok (descend_cell sp i j)"
  by (simp add: descend_cell_def)

lemma cell_descend_cell:
  "board_ok sp \<Longrightarrow> i < 29 \<Longrightarrow> j < 160 \<Longrightarrow>
   cell (descend_cell sp i j) r c =
     (if cell sp i j = ENEMY \<and> cell sp (i + 1) j = EMPTY \<and> c = j
      then (if r = i then EMPTY else if r = i + 1 then ENEMY else cell sp r c)
      else cell sp r c)"
  by (simp add: descend_cell_def cell_set_cell_ok)

lemma row_loop_rule:
  assumes "P sp"
    and "\<And>b j. P b \<Longrightarrow> j \<in> set js \<Longrightarrow>
           (if cell (descend_cell b i j) 29 j = ENEMY then Q (descend_cell b i j)
            else P (descend_cell b i j))"
  shows "case row_loop sp i js of Inl b \<Rightarrow> Q b | Inr b \<Rightarrow> P b"
  using assms
proof (induction js arbitrary: sp)
  case Nil
  then show ?case by simp
next
  case (Cons j js)
  have step: "if cell (descend_cell sp i j) 29 j = ENEMY then Q (descend_cell sp i j)
              else P (descend_cell sp i j)"
    using Cons.prems(2) [OF Cons.prems(1), of j] by simp
  show ?case
  proof (cases "cell (descend_cell sp i j) 29 j = ENEMY")
    case True
    with step show ?thesis by (simp add: Let_def)
  next
    case False
    with step have "P (descend_cell sp i j)" by simp
    from Cons.IH [OF this] Cons.prems(2) False show ?thesis by (simp add: Let_def)
  qed
qed

lemma board_loop_rule:
  assumes "P sp"
    and "\<And>b i j. P b \<Longrightarrow> i \<in> set rs \<Longrightarrow> j \<in> set [1 ..< length (b ! 0) - 1] \<Longrightarrow>
           (if cell (descend_cell b i j) 29 j = ENEMY then Q (descend_cell b i j)
            else P (descend_cell b i j))"
  shows "case board_loop sp rs of Inl b \<Rightarrow> Q b | Inr b \<Rightarrow> P b"
  using assms
proof (induction rs arbitrary: sp)
  case Nil
  then show ?case by simp
next
  case (Cons i rs)
  have row: "case row_loop sp i [1 ..< length (sp ! 0) - 1] of Inl b \<Rightarrow> Q b
             | Inr b \<Rightarrow> P b \<and> length (b ! 0) = length (sp ! 0)"
  proof (rule row_loop_rule [where P = "\<lambda>b. P b \<and> length (b ! 0) = length (sp ! 0)"])
    show "P sp \<and> length (sp ! 0) = length (sp ! 0)" using Cons.prems(1) by simp
  next
    fix b j
    assume "P b \<and> length (b ! 0) = length (sp ! 0)" "j \<in> set [1 ..< length (sp ! 0) - 1]"
    then show "if cell (descend_cell b i j) 29 j = ENEMY then Q (descend_cell b i j)
               else P (descend_cell b i j) \<and> length (descend_cell b i j ! 0) = length (sp ! 0)"
      using Cons.prems(2) [of b i j] by (auto simp: descend_cell_def)
  qed
  show ?case
  proof (cases "row_loop sp i [1 ..< length (sp ! 0) - 1]")
    case (Inl b)
    with row show ?thesis by simp
  next
    case (Inr b)
    with row have "P b" by simp
    from Cons.IH [OF this] Cons.prems(2) Inr show ?thesis by simp
  qed
qed

lemma descend_rule:
  assumes "board_ok sp" "P sp"
    and "\<And>b i j. board_ok b \<Longrightarrow> P b \<Longrightarrow> 1 \<le> i \<Longrightarrow> i \<le> 28 \<Longrightarrow> 1 \<le> j \<Longrightarrow> j \<le> 158 \<Longrightarrow>
           (if cell (descend_cell b i j) 29 j = ENEMY then Q (descend_cell b i j)
            else P (descend_cell b i j))"
  shows "case descend sp of Inl b \<Rightarrow> Q b \<and> board_ok b | Inr b \<Rightarrow> P b \<and> board_ok b"
  unfolding descend_def
proof (rule board_loop_rule [where P = "\<lambda>b. P b \<and> board_ok b"])
  show "P sp \<and> board_ok sp" using assms by simp
next
  fix b i j
  assume a: "P b \<and> board_ok b" "i \<in> set (rev [1 ..< length sp - 1])"
    "j \<in> set [1 ..< length (b ! 0) - 1]"
  have "length sp = 30" "length (b ! 0) = 160" using assms(1) a(1) by (simp_all add: board_ok_iff)
  with a have "1 \<le> i" "i \<le> 28" "1 \<le> j" "j \<le> 158" by auto
  with assms(3) [of b i j] a(1)
  show "if cell (descend_cell b i j) 29 j = ENEMY
        then Q (descend_cell b i j) \<and> board_ok (descend_cell b i j)
        else P (descend_cell b i j) \<and> board_ok (descend_cell b i j)"
    by auto
qed

lemma descend_invariant:
  assumes "board_ok sp" "P sp"
    and "\<And>b i j. board_ok b \<Longrightarrow> P b \<Longrightarrow> 1 \<le> i \<Longrightarrow> i \<le> 28 \<Longrightarrow> 1 \<le> j \<Longrightarrow> j \<le> 158 \<Longrightarrow>
           P (descend_cell b i j)"
  shows "P (board_of (descend sp)) \<and> board_ok (board_of (descend sp))"
  using descend_rule [where P = P and Q = P, OF assms(1,2)] assms(3)
  by (cases "descend sp") auto

lemma row_loop_lost:
  assumes "board_ok sp" "j \<in> set js" "\<forall>k\<in>set js. k < 160"
    and "(cell sp 28 j = ENEMY \<and> cell sp 29 j = EMPTY) \<or> cell sp 29 j = ENEMY"
  shows "\<exists>b. row_loop sp 28 js = Inl b"
  using assms
proof (induction js arbitrary: sp)
  case Nil
  then show ?case by simp
next
  case (Cons k js)
  show ?case
  proof (cases "cell (descend_cell sp 28 k) 29 k = ENEMY")
    case True
    then show ?thesis by (simp add: Let_def)
  next
    case False
    have k: "k < 160" using Cons.prems(3) by simp
    have "k \<noteq> j" using False Cons.prems(1,4) k
      by (auto simp: cell_descend_cell)
    then have "j \<in> set js" using Cons.prems(2) by simp
    moreover have "(cell (descend_cell sp 28 k) 28 j = ENEMY \<and> cell (descend_cell sp 28 k) 29 j = EMPTY)
       \<or> cell (descend_cell sp 28 k) 29 j = ENEMY"
      using Cons.prems(1,4) k \<open>k \<noteq> j\<close> by (simp add: cell_descend_cell)
    ultimately have "\<exists>b. row_loop (descend_cell sp 28 k) 28 js = Inl b"
      using Cons.IH [of "descend_cell sp 28 k"] Cons.prems(1,3) by simp
    with False show ?thesis by (simp add: Let_def)
  qed
qed

lemma descend_lost:
  assumes "board_ok sp" "1 \<le> j" "j \<le> 158"
    and "(cell sp 28 j = ENEMY \<and> cell sp 29 j = EMPTY) \<or> cell sp 29 j = ENEMY"
  shows "\<exists>b. descend sp = Inl b"
proof -
  have len: "length sp = 30" "length (sp ! 0) = 160" using assms(1) by (simp_all add: board_ok_iff)
  have r0: "[1 ..< 29] = [1 ..< 28] @ [28::nat]"
    using upt_Suc_append [of 1 28] by simp
  have l29: "length sp - 1 = 29" using len by simp
  have d: "descend sp = board_loop sp (28 # rev [1 ..< 28])"
    unfolding descend_def l29 r0 by simp
  have "\<exists>b. row_loop sp 28 [1 ..< 159] = Inl b"
    by (rule row_loop_lost [OF assms(1) _ _ assms(4)]) (use assms(2,3) in auto)
  then obtain b where "row_loop sp 28 [1 ..< 159] = Inl b" ..
  then have "descend sp = Inl b"
    unfolding d by (simp add: len)
  then show ?thesis ..
qed

subsection \<open>The sample boards\<close>

lemma board_ok_empty [simp]: "board_ok empty_board"
  by (simp add: board_ok_def empty_board_def list_all_length)

lemma cell_empty_board [simp]: "i < 30 \<Longrightarrow> j < 160 \<Longrightarrow> cell empty_board i j = EMPTY"
  by (simp add: empty_board_def cell_def rows_def cols_def)

lemma length_empty_board [simp]: "length empty_board = 30"
  by (simp add: empty_board_def rows_def)

lemma length_row_empty_board [simp]: "i < 30 \<Longrightarrow> length (empty_board ! i) = 160"
  by (simp add: empty_board_def rows_def cols_def)

lemma space_state_with [simp]: "space (state_with sp) = sp"
  by (simp add: state_with_def)

lemma update_board_lost:
  "descend sp = Inl b \<Longrightarrow> update_board sp w = Inl (b, you_lost w)"
  by (simp add: update_board_def)

subsection \<open>The terminal through an iteration\<close>

lemma world_cout [simp]:
  "tty (cout x w) = tty w" "oldt (cout x w) = oldt w" "stdin_flags (cout x w) = stdin_flags w"
  "out (cout x w) = out w @ x"
  by (simp_all add: cout_def)

lemma world_print_board [simp]:
  "tty (print_board sp w) = tty w" "oldt (print_board sp w) = oldt w"
  "stdin_flags (print_board sp w) = stdin_flags w"
  by (simp_all add: print_board_def Let_def)

lemma world_raw_off [simp]:
  "tty (set_terminal_raw_mode False w) = oldt w"
  "oldt (set_terminal_raw_mode False w) = oldt w"
  "stdin_flags (set_terminal_raw_mode False w) = stdin_flags w"
  "out (set_terminal_raw_mode False w) = out w"
  by (simp_all add: set_terminal_raw_mode_def)

lemma world_raw_on [simp]:
  "oldt (set_terminal_raw_mode True w) = tty w"
  "tty (set_terminal_raw_mode True w) = (tty w)\<lparr>c_lflag := c_lflag (tty w) - {ICANON, ECHO}\<rparr>"
  "stdin_flags (set_terminal_raw_mode True w) = stdin_flags w"
  "out (set_terminal_raw_mode True w) = out w"
  by (simp_all add: set_terminal_raw_mode_def Let_def)

lemma world_non_blocking [simp]:
  "tty (set_non_blocking_input e w) = tty w"
  "oldt (set_non_blocking_input e w) = oldt w"
  "out (set_non_blocking_input e w) = out w"
  "stdin_flags (set_non_blocking_input e w) =
     (if e then stdin_flags w \<union> {O_NONBLOCK} else stdin_flags w - {O_NONBLOCK})"
  by (simp_all add: set_non_blocking_input_def Let_def)

lemma os_frame [simp]: "os (frame s) = print_board (space (frame s)) (os s)"
  by (simp add: frame_def split: prod.splits)

lemma os_fire [simp]: "os (fire t s) = os s"
  by (simp add: fire_def)

lemma os_deploy [simp]: "os (deploy t c s) = os s"
  by (simp add: deploy_def)

lemma descent_cases:
  "descent t s = Running (frame s) \<or>
   (\<exists>b. descent t s = Running (frame (s\<lparr>space := b, last_frame_time := t\<rparr>))) \<or>
   (\<exists>b. descent t s = Exited Lost (s\<lparr>space := b, os := you_lost (os s)\<rparr>) 0)"
  by (cases "descend (space s)") (auto simp: descent_def update_board_def)

lemma descent_world:
  "descent t s = Running s' \<Longrightarrow> oldt (os s') = oldt (os s)"
  "descent t s = Exited r s' status \<Longrightarrow>
     r = Lost \<and> status = 0 \<and> os s' = you_lost (os s)"
  using descent_cases [of t s] by auto

lemma tick_world_running:
  "tick s inp = Running s' \<Longrightarrow> oldt (os s') = oldt (os s)"
  by (auto simp: tick_def Let_def split: option.splits dest!: descent_world(1))

lemma tick_world_exited:
  assumes "tick s inp = Exited r s' status"
  shows "status = 0 \<and> tty (os s') = oldt (os s) \<and> O_NONBLOCK \<notin> stdin_flags (os s') \<and>
         out (os s') = out (os s) @ final_message r"
proof (cases "switch_move (move inp) (shooter_position s)")
  case None
  with assms show ?thesis
    by (auto simp: tick_def Let_def quit_def)
next
  case (Some p)
  with assms show ?thesis
    by (auto simp: tick_def Let_def you_lost_def endl_def dest!: descent_world(2))
qed

lemma run_exited:
  "run s inps = Exited r s' status \<Longrightarrow>
   status = 0 \<and> tty (os s') = oldt (os s) \<and> O_NONBLOCK \<notin> stdin_flags (os s') \<and>
   (\<exists>printed. out (os s') = printed @ final_message r) \<and>
   run s (inps @ rest) = Exited r s' status"
proof (induction inps arbitrary: s)
  case Nil
  then show ?case by simp
next
  case (Cons inp inps)
  show ?case
  proof (cases "tick s inp")
    case (Running s1)
    with Cons.prems have "run s1 inps = Exited r s' status" by simp
    from Cons.IH [OF this] tick_world_running [OF Running] Running
    show ?thesis by simp
  next
    case (Exited r1 s1 st1)
    with Cons.prems have "r1 = r" "s1 = s'" "st1 = status" by simp_all
    with tick_world_exited [OF Exited] Exited show ?thesis by auto
  qed
qed

subsection \<open>The three loops over the bullets\<close>

lemma board_ok_erase [simp]: "board_ok sp \<Longrightarrow> board_ok (erase_bullets sp bs)"
  by (induction bs arbitrary: sp) simp_all

lemma board_ok_draw [simp]: "board_ok sp \<Longrightarrow> board_ok (draw_bullets sp bs)"
  by (induction bs arbitrary: sp) simp_all

lemma board_ok_advance [simp]: "board_ok sp \<Longrightarrow> board_ok (fst (advance_bullets sp acc bs))"
  by (induction bs arbitrary: sp acc) (simp_all add: Let_def)

lemma cell_erase:
  "board_ok sp \<Longrightarrow> \<forall>b\<in>set bs. fst b < 30 \<and> snd b < 160 \<Longrightarrow>
   cell (erase_bullets sp bs) r c =
     (if (r, c) \<in> set bs \<and> cell sp r c = BULLET then EMPTY else cell sp r c)"
proof (induction bs arbitrary: sp)
  case Nil
  then show ?case by simp
next
  case (Cons b bs)
  obtain br bc where b: "b = (br, bc)" by (cases b)
  with Cons.prems have "br < 30" "bc < 160" by simp_all
  with Cons show ?case
    by (auto simp: b cell_set_cell_ok)
qed

lemma cell_draw:
  "board_ok sp \<Longrightarrow> \<forall>b\<in>set bs. fst b < 30 \<and> snd b < 160 \<Longrightarrow>
   cell (draw_bullets sp bs) r c = (if (r, c) \<in> set bs then BULLET else cell sp r c)"
proof (induction bs arbitrary: sp)
  case Nil
  then show ?case by simp
next
  case (Cons b bs)
  obtain br bc where b: "b = (br, bc)" by (cases b)
  with Cons.prems have "br < 30" "bc < 160" by simp_all
  with Cons show ?case
    by (auto simp: b cell_set_cell_ok)
qed

lemma cell_advance:
  "board_ok sp \<Longrightarrow> \<forall>b\<in>set bs. fst b \<le> 30 \<and> snd b < 160 \<Longrightarrow>
   cell (fst (advance_bullets sp acc bs)) r c =
     (if cell sp r c = ENEMY \<and> 1 \<le> r \<and> (r + 1, c) \<in> set bs then EMPTY else cell sp r c)"
proof (induction bs arbitrary: sp acc)
  case Nil
  then show ?case by simp
next
  case (Cons b bs)
  obtain br bc where b: "b = (br, bc)" by (cases b)
  with Cons.prems have "br \<le> 30" "bc < 160" by simp_all
  then have r: "br - 1 < 30" "bc < 160" by arith+
  show ?case
  proof (cases "br - 1 \<ge> 1 \<and> cell sp (br - 1) bc = ENEMY")
    case True
    then have "fst (advance_bullets sp acc (b # bs)) =
               fst (advance_bullets (set_cell sp (br - 1) bc EMPTY) acc bs)"
      by (simp add: b Let_def)
    moreover have "cell (fst (advance_bullets (set_cell sp (br - 1) bc EMPTY) acc bs)) r c =
      (if cell (set_cell sp (br - 1) bc EMPTY) r c = ENEMY \<and> 1 \<le> r \<and> (r + 1, c) \<in> set bs
       then EMPTY else cell (set_cell sp (br - 1) bc EMPTY) r c)"
      using Cons.prems by (intro Cons.IH) simp_all
    ultimately show ?thesis
      using True r Cons.prems(1) by (auto simp: b cell_set_cell_ok)
  next
    case False
    then have "fst (advance_bullets sp acc (b # bs)) = fst (advance_bullets sp acc bs) \<or>
               fst (advance_bullets sp acc (b # bs)) =
                 fst (advance_bullets sp (acc @ [(br - 1, bc)]) bs)"
      by (auto simp: b Let_def)
    moreover have "\<And>acc'. cell (fst (advance_bullets sp acc' bs)) r c =
      (if cell sp r c = ENEMY \<and> 1 \<le> r \<and> (r + 1, c) \<in> set bs then EMPTY else cell sp r c)"
      using Cons.prems by (intro Cons.IH) simp_all
    ultimately show ?thesis
      using False by (auto simp: b)
  qed
qed

lemma advance_subset:
  "x \<in> set (snd (advance_bullets sp acc bs)) \<Longrightarrow>
   x \<in> set acc \<or> (fst x + 1, snd x) \<in> set bs"
proof (induction bs arbitrary: sp acc)
  case Nil
  then show ?case by simp
next
  case (Cons b bs)
  show ?case
  proof (cases "fst b - 1 \<ge> 1")
    case True
    note ge = this
    show ?thesis
    proof (cases "cell sp (fst b - 1) (snd b) = ENEMY")
      case True
      with ge Cons.prems Cons.IH [of "set_cell sp (fst b - 1) (snd b) EMPTY" acc]
      show ?thesis by (auto simp: Let_def)
    next
      case False
      with ge Cons.prems Cons.IH [of sp "acc @ [(fst b - 1, snd b)]"]
      show ?thesis by (cases b; cases x) (auto simp: Let_def)
    qed
  next
    case False
    with Cons.prems Cons.IH [of sp acc] show ?thesis by (auto simp: Let_def)
  qed
qed

lemma advance_snd:
  "board_ok sp \<Longrightarrow> \<forall>b\<in>set bs. fst b \<le> 30 \<and> snd b < 160 \<Longrightarrow> sorted_wrt (<) (map fst bs) \<Longrightarrow>
   snd (advance_bullets sp acc bs) = acc @ map bullet_up (filter (bullet_flies sp) bs)"
proof (induction bs arbitrary: sp acc)
  case Nil
  then show ?case by simp
next
  case (Cons b bs)
  obtain br bc where b: "b = (br, bc)" by (cases b)
  with Cons.prems have "br \<le> 30" "bc < 160" by simp_all
  then have r: "br - 1 < 30" "bc < 160" by arith+
  have later: "\<forall>x\<in>set bs. br < fst x" using Cons.prems(3) by (auto simp: b)
  show ?case
  proof (cases "br - 1 \<ge> 1 \<and> cell sp (br - 1) bc = ENEMY")
    case True
    let ?sp = "set_cell sp (br - 1) bc EMPTY"
    have same: "filter (bullet_flies ?sp) bs = filter (bullet_flies sp) bs"
    proof (rule filter_cong [OF refl])
      fix x assume "x \<in> set bs"
      with later have "br < fst x" by simp
      then have "fst x - 1 \<noteq> br - 1" using True by arith
      then show "bullet_flies ?sp x = bullet_flies sp x"
        using Cons.prems(1) r by (simp add: bullet_flies_def cell_set_cell_ok)
    qed
    have "snd (advance_bullets sp acc (b # bs)) = snd (advance_bullets ?sp acc bs)"
      using True by (simp add: b Let_def)
    also have "\<dots> = acc @ map bullet_up (filter (bullet_flies ?sp) bs)"
      using Cons.prems by (intro Cons.IH) simp_all
    finally have "snd (advance_bullets sp acc (b # bs)) =
                  acc @ map bullet_up (filter (bullet_flies ?sp) bs)" .
    moreover have "\<not> bullet_flies sp b" using True by (simp add: b bullet_flies_def)
    ultimately show ?thesis
      using same by simp
  next
    case False
    have IH: "\<And>acc'. snd (advance_bullets sp acc' bs) =
                 acc' @ map bullet_up (filter (bullet_flies sp) bs)"
      using Cons.prems by (intro Cons.IH) simp_all
    show ?thesis
    proof (cases "br - 1 \<ge> 1")
      case True
      with False have "bullet_flies sp b" by (simp add: b bullet_flies_def)
      moreover have "snd (advance_bullets sp acc (b # bs)) =
                     snd (advance_bullets sp (acc @ [(br - 1, bc)]) bs)"
        using True False by (simp add: b Let_def)
      ultimately show ?thesis using IH by (simp add: b bullet_up_def)
    next
      case False
      then have "\<not> bullet_flies sp b" by (simp add: b bullet_flies_def)
      moreover have "snd (advance_bullets sp acc (b # bs)) = snd (advance_bullets sp acc bs)"
        using False by (simp add: b Let_def)
      ultimately show ?thesis using IH by simp
    qed
  qed
qed

subsection \<open>The advancement step as a whole\<close>

lemma bullets_live_range:
  "bullets_live bs \<Longrightarrow> b \<in> set bs \<Longrightarrow> 1 \<le> fst b \<and> fst b \<le> 27 \<and> 1 \<le> snd b \<and> snd b \<le> 158"
  by (auto simp: bullets_live_def list_all_iff cols_def)

lemma bullets_live_sorted: "bullets_live bs \<Longrightarrow> sorted_wrt (<) (map fst bs)"
  by (simp add: bullets_live_def)

lemma bullet_flies_erase:
  assumes "board_ok sp" "\<forall>b\<in>set bs. fst b < 30 \<and> snd b < 160"
  shows "bullet_flies (erase_bullets sp bs) b = bullet_flies sp b"
  using assms by (simp add: bullet_flies_def cell_erase)

lemma bullet_step_eq:
  "bullet_step sp bs =
     (draw_bullets (fst (advance_bullets (erase_bullets sp bs) [] bs))
        (snd (advance_bullets (erase_bullets sp bs) [] bs)),
      snd (advance_bullets (erase_bullets sp bs) [] bs))"
  by (simp add: bullet_step_def case_prod_beta)

lemma bullet_step_bullets:
  assumes "board_ok sp" "bullets_live bs"
  shows "snd (bullet_step sp bs) = map bullet_up (filter (bullet_flies sp) bs)"
proof -
  have r: "\<forall>b\<in>set bs. fst b < 30 \<and> snd b < 160"
    using bullets_live_range [OF assms(2)] by fastforce
  then have r': "\<forall>b\<in>set bs. fst b \<le> 30 \<and> snd b < 160" by fastforce
  have "snd (bullet_step sp bs) = snd (advance_bullets (erase_bullets sp bs) [] bs)"
    by (simp add: bullet_step_eq)
  also have "\<dots> = [] @ map bullet_up (filter (bullet_flies (erase_bullets sp bs)) bs)"
    using assms r' by (intro advance_snd) (simp_all add: bullets_live_sorted)
  also have "filter (bullet_flies (erase_bullets sp bs)) bs = filter (bullet_flies sp) bs"
    by (rule filter_cong [OF refl]) (simp add: bullet_flies_erase [OF assms(1) r])
  finally show ?thesis by simp
qed

lemma new_bullets_range:
  assumes "bullets_live bs" "x \<in> set (map bullet_up (filter (bullet_flies sp) bs))"
  shows "1 \<le> fst x \<and> fst x \<le> 26 \<and> 1 \<le> snd x \<and> snd x \<le> 158"
proof -
  from assms(2) obtain b where b: "b \<in> set bs" "bullet_flies sp b" "x = bullet_up b" by auto
  with bullets_live_range [OF assms(1) b(1)] show ?thesis
    by (auto simp: bullet_up_def bullet_flies_def)
qed

lemma new_bullets_ok:
  assumes "bullets_live bs"
  shows "bullets_ok (map bullet_up (filter (bullet_flies sp) bs))"
proof -
  have "sorted_wrt (<) (map fst (filter (bullet_flies sp) bs))"
    using bullets_live_sorted [OF assms] by (simp add: sorted_wrt_map sorted_wrt_filter)
  then have "sorted_wrt (\<lambda>a b. fst a < fst b) (filter (bullet_flies sp) bs)"
    by (simp add: sorted_wrt_map)
  then have "sorted_wrt (\<lambda>a b. fst (bullet_up a) < fst (bullet_up b)) (filter (bullet_flies sp) bs)"
    by (rule sorted_wrt_mono_rel [rotated]) (auto simp: bullet_up_def bullet_flies_def)
  then have "sorted_wrt (<) (map fst (map bullet_up (filter (bullet_flies sp) bs)))"
    by (simp add: sorted_wrt_map)
  moreover have "\<forall>x\<in>set (map bullet_up (filter (bullet_flies sp) bs)).
     1 \<le> fst x \<and> fst x \<le> 26 \<and> 1 \<le> snd x \<and> snd x \<le> cols - 2"
    using new_bullets_range [OF assms] by (simp add: cols_def)
  ultimately show ?thesis
    unfolding bullets_ok_def list_all_iff by blast
qed

lemma bullet_step_cell:
  assumes "board_ok sp" "bullets_live bs"
  shows "cell (fst (bullet_step sp bs)) r c =
     (if (r, c) \<in> set (map bullet_up (filter (bullet_flies sp) bs)) then BULLET
      else if cell sp r c = ENEMY \<and> 1 \<le> r \<and> (r + 1, c) \<in> set bs then EMPTY
      else if (r, c) \<in> set bs \<and> cell sp r c = BULLET then EMPTY
      else cell sp r c)"
proof -
  let ?e = "erase_bullets sp bs"
  let ?a = "advance_bullets ?e [] bs"
  have r: "\<forall>b\<in>set bs. fst b < 30 \<and> snd b < 160"
    using bullets_live_range [OF assms(2)] by fastforce
  then have r': "\<forall>b\<in>set bs. fst b \<le> 30 \<and> snd b < 160" by fastforce
  have nb: "snd ?a = map bullet_up (filter (bullet_flies sp) bs)"
    using bullet_step_bullets [OF assms] by (simp add: bullet_step_eq)
  have nr: "\<forall>b\<in>set (snd ?a). fst b < 30 \<and> snd b < 160"
    unfolding nb using new_bullets_range [OF assms(2), of _ sp] by fastforce
  have "cell (fst (bullet_step sp bs)) r c = cell (draw_bullets (fst ?a) (snd ?a)) r c"
    by (simp add: bullet_step_eq)
  also have "\<dots> = (if (r, c) \<in> set (snd ?a) then BULLET else cell (fst ?a) r c)"
    using assms(1) nr by (intro cell_draw) simp_all
  also have "cell (fst ?a) r c =
     (if cell ?e r c = ENEMY \<and> 1 \<le> r \<and> (r + 1, c) \<in> set bs then EMPTY else cell ?e r c)"
    using assms(1) r' by (intro cell_advance) simp_all
  also have "cell ?e r c = (if (r, c) \<in> set bs \<and> cell sp r c = BULLET then EMPTY else cell sp r c)"
    using assms(1) r by (intro cell_erase) simp_all
  finally show ?thesis unfolding nb by auto
qed

lemma board_ok_bullet_step [simp]: "board_ok sp \<Longrightarrow> board_ok (fst (bullet_step sp bs))"
  by (simp add: bullet_step_eq)

subsection \<open>The invariant of the loop\<close>

lemma border_clear_iff:
  "border_clear sp \<longleftrightarrow>
     (\<forall>j<160. cell sp 0 j = EMPTY \<and> cell sp 29 j = EMPTY) \<and>
     (\<forall>i<30. cell sp i 0 = EMPTY \<and> cell sp i 159 = EMPTY)"
  by (auto simp: border_clear_def list_all_iff rows_def cols_def)

lemma on_border_iff: "on_border r c \<longleftrightarrow> r = 0 \<or> r = 29 \<or> c = 0 \<or> c = 159"
  by (simp add: on_border_def rows_def cols_def)

lemma border_clear_alt:
  "border_clear sp \<longleftrightarrow> (\<forall>r<30. \<forall>c<160. on_border r c \<longrightarrow> cell sp r c = EMPTY)"
proof
  assume "border_clear sp"
  then show "\<forall>r<30. \<forall>c<160. on_border r c \<longrightarrow> cell sp r c = EMPTY"
    unfolding border_clear_iff on_border_iff by blast
next
  assume a: "\<forall>r<30. \<forall>c<160. on_border r c \<longrightarrow> cell sp r c = EMPTY"
  have "cell sp 0 j = EMPTY \<and> cell sp 29 j = EMPTY" if "j < 160" for j
    using a [rule_format, of 0 j] a [rule_format, of 29 j] that by (simp add: on_border_iff)
  moreover have "cell sp i 0 = EMPTY \<and> cell sp i 159 = EMPTY" if "i < 30" for i
    using a [rule_format, of i 0] a [rule_format, of i 159] that by (simp add: on_border_iff)
  ultimately show "border_clear sp" unfolding border_clear_iff by blast
qed

lemma border_clear_set_cell:
  assumes "board_ok sp" "border_clear sp" "1 \<le> i" "i \<le> 28" "1 \<le> j" "j \<le> 158"
  shows "border_clear (set_cell sp i j c)"
  using assms unfolding border_clear_alt
  by (auto simp: cell_set_cell_ok on_border_iff)

lemma border_clear_descend:
  assumes "board_ok sp" "border_clear sp" "descend sp = Inr b"
  shows "border_clear b \<and> board_ok b"
proof -
  have "case descend sp of Inl b \<Rightarrow> True \<and> board_ok b | Inr b \<Rightarrow> border_clear b \<and> board_ok b"
  proof (rule descend_rule [where P = border_clear and Q = "\<lambda>_. True", OF assms(1,2)])
    fix b i j
    assume a: "board_ok b" "border_clear b" "(1::nat) \<le> i" "i \<le> 28" "(1::nat) \<le> j" "j \<le> 158"
    show "if cell (descend_cell b i j) 29 j = ENEMY then True
          else border_clear (descend_cell b i j)"
    proof (cases "cell (descend_cell b i j) 29 j = ENEMY")
      case True
      then show ?thesis by simp
    next
      case False
      have "border_clear (descend_cell b i j)"
      proof (cases "cell b i j = ENEMY \<and> cell b (i + 1) j = EMPTY")
        case True
        with False a have "i + 1 \<noteq> 29" by (auto simp: cell_descend_cell)
        with a have "i + 1 \<le> 28" by simp
        with True a show ?thesis
          by (simp add: descend_cell_def border_clear_set_cell)
      next
        case False
        then have "descend_cell b i j = b" by (auto simp: descend_cell_def)
        with a show ?thesis by simp
      qed
      with False show ?thesis by simp
    qed
  qed
  with assms(3) show ?thesis by simp
qed

lemma border_clear_bullet_step:
  assumes "board_ok sp" "border_clear sp" "bullets_live bs"
  shows "border_clear (fst (bullet_step sp bs))"
  unfolding border_clear_alt
proof (intro allI impI)
  fix r c
  assume rc: "r < 30" "c < 160" "on_border r c"
  have "(r, c) \<notin> set (map bullet_up (filter (bullet_flies sp) bs))"
    using new_bullets_range [OF assms(3), of "(r, c)" sp] rc(3) by (auto simp: on_border_iff)
  moreover have "cell sp r c = EMPTY" using assms(2) rc by (simp add: border_clear_alt)
  ultimately show "cell (fst (bullet_step sp bs)) r c = EMPTY"
    by (simp add: bullet_step_cell [OF assms(1,3)])
qed

lemma bullets_live_fire:
  assumes "bullets_ok bs" "1 \<le> p" "p \<le> cols - 2"
  shows "bullets_live (bs @ [(27, p)])" and "bullets_live bs"
  using assms unfolding bullets_ok_def bullets_live_def list_all_iff
  by (auto simp: sorted_wrt_append)

lemma inv_frame:
  assumes "mid s"
  shows "inv (frame s)"
proof -
  from assms have a: "board_ok (space s)" "border_clear (space s)" "bullets_live (bullets s)"
    "1 \<le> shooter_position s" "shooter_position s \<le> cols - 2"
    by (simp_all add: mid_def)
  have f: "space (frame s) = fst (bullet_step (space s) (bullets s))"
    "bullets (frame s) = snd (bullet_step (space s) (bullets s))"
    by (simp_all add: frame_def case_prod_beta)
  show ?thesis
    unfolding inv_def f
    using a by (simp add: border_clear_bullet_step bullet_step_bullets new_bullets_ok)
qed

lemma mid_descent:
  assumes "mid s" "descent t s = Running s'"
  shows "inv s'"
proof (cases "milliseconds (t - last_frame_time s) \<ge> 500")
  case False
  with assms(2) have "s' = frame s" by (simp add: descent_def)
  with inv_frame [OF assms(1)] show ?thesis by simp
next
  case True
  with assms(2) obtain b where b: "descend (space s) = Inr b"
    "s' = frame (s\<lparr>space := b, last_frame_time := t\<rparr>)"
    by (cases "descend (space s)") (auto simp: descent_def update_board_def)
  from assms(1) have "board_ok (space s)" "border_clear (space s)" by (simp_all add: mid_def)
  from border_clear_descend [OF this b(1)] assms(1)
  have "mid (s\<lparr>space := b, last_frame_time := t\<rparr>)" by (simp add: mid_def)
  from inv_frame [OF this] b(2) show ?thesis by simp
qed

lemma space_fire [simp]: "space (fire t s) = space s"
  by (simp add: fire_def)

lemma mid_before_descent:
  assumes "inv s" "input_ok inp" "switch_move (move inp) (shooter_position s) = Some p"
  shows "mid (deploy (now inp) (random_column inp) (placed (fire (now inp) s) p))"
proof -
  from assms(1) have a: "board_ok (space s)" "border_clear (space s)" "bullets_ok (bullets s)"
    "1 \<le> shooter_position s" "shooter_position s \<le> cols - 2"
    by (simp_all add: inv_def)
  from switch_move_range [OF a(4,5) assms(3)] have p: "1 \<le> p" "p \<le> cols - 2" by simp_all
  have bl: "bullets_live (bullets (fire (now inp) s))"
    using bullets_live_fire [OF a(3,4,5)] by (simp add: fire_def)
  have b1: "border_clear (set_cell (set_cell (space s) 28 (shooter_position s) EMPTY) 28 p SHOOTER)"
    using a p by (simp add: border_clear_set_cell cols_def)
  have b2: "border_clear (set_cell (set_cell (set_cell (space s) 28 (shooter_position s) EMPTY) 28 p SHOOTER)
                1 (random_column inp) ENEMY)"
    using a(1) b1 assms(2) by (simp add: border_clear_set_cell input_ok_def)
  show ?thesis
    using a p bl b1 b2 by (simp add: mid_def deploy_def placed_def)
qed

lemma tick_eq:
  "tick s inp =
     (case switch_move (move inp) (shooter_position s) of
        None \<Rightarrow> Exited Quit ((fire (now inp) s)\<lparr>space := set_cell (space s) 28 (shooter_position s) EMPTY,
                                 os := quit (os s)\<rparr>) 0
      | Some p \<Rightarrow> descent (now inp) (deploy (now inp) (random_column inp) (placed (fire (now inp) s) p)))"
  by (simp add: tick_def Let_def placed_def split: option.splits)

lemma inv_tick:
  assumes "inv s" "input_ok inp" "tick s inp = Running s'"
  shows "inv s'"
proof (cases "switch_move (move inp) (shooter_position s)")
  case None
  with assms(3) show ?thesis by (simp add: tick_eq)
next
  case (Some p)
  with assms(3) mid_descent [OF mid_before_descent [OF assms(1,2) Some]]
  show ?thesis by (simp add: tick_eq)
qed

lemma inv_run:
  "inv s \<Longrightarrow> list_all input_ok inps \<Longrightarrow> run s inps = Running s' \<Longrightarrow> inv s'"
proof (induction inps arbitrary: s)
  case Nil
  then show ?case by simp
next
  case (Cons inp inps)
  then show ?case
    by (cases "tick s inp") (auto dest: inv_tick)
qed

lemma border_clear_empty [simp]: "border_clear empty_board"
  by (simp add: border_clear_iff)

lemma inv_start [simp]: "inv (start w t1 t2 t3)"
  using board_ok_empty border_clear_empty
  by (simp add: inv_def start_def bullets_ok_def cols_def empty_board_def)

subsection \<open>No enemy descends more than one row\<close>

lemma row_loop_one_row:
  assumes "board_ok cur" "i \<le> 28" "distinct js" "\<forall>j\<in>set js. j < 160"
    and "one_row pre cur"
    and "\<forall>j\<in>set js. cell cur i j = cell pre i j"
    and "\<forall>r<i. \<forall>c. cell cur r c = cell pre r c"
  shows "one_row pre (board_of (row_loop cur i js)) \<and>
         (\<forall>r<i. \<forall>c. cell (board_of (row_loop cur i js)) r c = cell pre r c) \<and>
         board_ok (board_of (row_loop cur i js))"
  using assms
proof (induction js arbitrary: cur)
  case Nil
  then show ?case by simp
next
  case (Cons j js)
  let ?n = "descend_cell cur i j"
  have j: "j < 160" "i < 29" using Cons.prems(2,4) by simp_all
  have cn: "\<And>r c. cell ?n r c =
     (if cell cur i j = ENEMY \<and> cell cur (i + 1) j = EMPTY \<and> c = j
      then (if r = i then EMPTY else if r = i + 1 then ENEMY else cell cur r c)
      else cell cur r c)"
    using Cons.prems(1) j by (simp add: cell_descend_cell)
  have pre_ij: "cell cur i j = cell pre i j" using Cons.prems(6) by simp
  have 1: "one_row pre ?n"
    unfolding one_row_def
  proof (intro allI impI)
    fix r c assume e: "cell ?n r c = ENEMY"
    show "cell pre r c = ENEMY \<or> (1 \<le> r \<and> cell pre (r - 1) c = ENEMY)"
    proof (cases "cell cur i j = ENEMY \<and> cell cur (i + 1) j = EMPTY \<and> c = j \<and> r = i + 1")
      case True
      with pre_ij show ?thesis by simp
    next
      case False
      with e have "cell cur r c = ENEMY" by (auto simp: cn split: if_splits)
      with Cons.prems(5) show ?thesis by (simp add: one_row_def)
    qed
  qed
  have 2: "\<forall>k\<in>set js. cell ?n i k = cell pre i k"
    using Cons.prems(3,6) by (auto simp: cn)
  have 3: "\<forall>r<i. \<forall>c. cell ?n r c = cell pre r c"
    using Cons.prems(7) by (auto simp: cn)
  have ok: "board_ok ?n" using Cons.prems(1) by simp
  show ?case
  proof (cases "cell ?n 29 j = ENEMY")
    case True
    then have "board_of (row_loop cur i (j # js)) = ?n" by (simp add: Let_def)
    with 1 3 ok show ?thesis by simp
  next
    case False
    then have "board_of (row_loop cur i (j # js)) = board_of (row_loop ?n i js)"
      by (simp add: Let_def)
    moreover have "one_row pre (board_of (row_loop ?n i js)) \<and>
         (\<forall>r<i. \<forall>c. cell (board_of (row_loop ?n i js)) r c = cell pre r c) \<and>
         board_ok (board_of (row_loop ?n i js))"
      using Cons.prems(2,3,4) ok 1 2 3 by (intro Cons.IH) simp_all
    ultimately show ?thesis by simp
  qed
qed

lemma board_loop_one_row:
  assumes "board_ok cur" "sorted_wrt (>) rs" "\<forall>i\<in>set rs. i \<le> 28 \<and> i \<le> k"
    and "one_row pre cur"
    and "\<forall>r\<le>k. \<forall>c. cell cur r c = cell pre r c"
  shows "one_row pre (board_of (board_loop cur rs)) \<and> board_ok (board_of (board_loop cur rs))"
  using assms
proof (induction rs arbitrary: cur k)
  case Nil
  then show ?case by simp
next
  case (Cons i rs)
  let ?js = "[1 ..< length (cur ! 0) - 1]"
  let ?row = "row_loop cur i ?js"
  have i: "i \<le> 28" "i \<le> k" using Cons.prems(3) by simp_all
  have len: "length (cur ! 0) = 160" using Cons.prems(1) by (simp add: board_ok_iff)
  have row: "one_row pre (board_of ?row) \<and>
         (\<forall>r<i. \<forall>c. cell (board_of ?row) r c = cell pre r c) \<and> board_ok (board_of ?row)"
    using Cons.prems(1,4,5) i by (intro row_loop_one_row) (auto simp: len)
  show ?case
  proof (cases ?row)
    case (Inl b)
    with row show ?thesis by simp
  next
    case (Inr b)
    with row have b: "one_row pre b" "\<forall>r<i. \<forall>c. cell b r c = cell pre r c" "board_ok b"
      by simp_all
    have "one_row pre (board_of (board_loop b rs)) \<and> board_ok (board_of (board_loop b rs))"
    proof (cases "i = 0")
      case True
      with Cons.prems(2) have "rs = []" by (cases rs) auto
      with b show ?thesis by simp
    next
      case False
      have "\<forall>x\<in>set rs. x \<le> 28 \<and> x \<le> i - 1"
        using Cons.prems(2,3) by fastforce
      moreover have "\<forall>r\<le>i - 1. \<forall>c. cell b r c = cell pre r c"
        using b(2) False by (metis Suc_pred' bot_nat_0.not_eq_extremum less_Suc_eq_le)
      moreover have "sorted_wrt (>) rs" using Cons.prems(2) by simp
      ultimately show ?thesis using b(1,3) by (intro Cons.IH [of b "i - 1"]) simp_all
    qed
    with Inr show ?thesis by simp
  qed
qed

lemma descend_one_row:
  assumes "board_ok sp"
  shows "one_row sp (board_of (descend sp)) \<and> board_ok (board_of (descend sp))"
  unfolding descend_def
proof (rule board_loop_one_row [where k = 28])
  show "sorted_wrt (>) (rev [1 ..< length sp - 1])"
    by (simp add: sorted_wrt_rev sorted_wrt_upt) 
  show "\<forall>i\<in>set (rev [1 ..< length sp - 1]). i \<le> 28 \<and> i \<le> 28"
    using assms by (auto simp: board_ok_iff)
  show "one_row sp sp" by (simp add: one_row_def)
qed (use assms in simp_all)

subsection \<open>What the descent leaves alone\<close>

lemma descend_Inl_enemy:
  assumes "board_ok sp" "descend sp = Inl b"
  shows "\<exists>j. 1 \<le> j \<and> j \<le> 158 \<and> cell b 29 j = ENEMY"
proof -
  have "case descend sp of Inl b \<Rightarrow> (\<exists>j. 1 \<le> j \<and> j \<le> 158 \<and> cell b 29 j = ENEMY) \<and> board_ok b
        | Inr b \<Rightarrow> True \<and> board_ok b"
    by (rule descend_rule [where P = "\<lambda>_. True", OF assms(1)]) auto
  with assms(2) show ?thesis by simp
qed

lemma descend_Inl_cause:
  assumes "board_ok sp" "descend sp = Inl b"
  shows "\<exists>j. 1 \<le> j \<and> j \<le> 158 \<and> cell b 29 j = ENEMY \<and> (cell sp 29 j = ENEMY \<or> cell sp 28 j = ENEMY)"
proof -
  from descend_Inl_enemy [OF assms] obtain j where j: "1 \<le> j" "j \<le> 158" "cell b 29 j = ENEMY"
    by blast
  from descend_one_row [OF assms(1)] assms(2) have "one_row sp b" by simp
  with j(3) have "cell sp 29 j = ENEMY \<or> cell sp 28 j = ENEMY"
    unfolding one_row_def by fastforce
  with j show ?thesis by blast
qed

lemma descend_keeps_others:
  assumes "board_ok sp"
  shows "cell (board_of (descend sp)) r c = cell sp r c \<or>
         (cell (board_of (descend sp)) r c \<in> {EMPTY, ENEMY} \<and> cell sp r c \<in> {EMPTY, ENEMY})"
proof -
  let ?P = "\<lambda>b. cell b r c = cell sp r c \<or>
                (cell b r c \<in> {EMPTY, ENEMY} \<and> cell sp r c \<in> {EMPTY, ENEMY})"
  have "?P (board_of (descend sp)) \<and> board_ok (board_of (descend sp))"
  proof (rule descend_invariant [where P = ?P, OF assms])
    show "?P sp" by simp
  next
    fix b i j
    assume "board_ok b" "?P b" "(1::nat) \<le> i" "i \<le> 28" "(1::nat) \<le> j" "j \<le> 158"
    then show "?P (descend_cell b i j)"
      by (auto simp: cell_descend_cell)
  qed
  then show ?thesis by simp
qed

lemma descend_blocked:
  assumes "board_ok sp" "cell sp i j = ENEMY" "cell sp (i + 1) j \<noteq> EMPTY" "cell sp (i + 1) j \<noteq> ENEMY"
  shows "cell (board_of (descend sp)) i j = ENEMY \<and>
         cell (board_of (descend sp)) (i + 1) j = cell sp (i + 1) j"
proof -
  let ?P = "\<lambda>b. cell b i j = ENEMY \<and> cell b (i + 1) j = cell sp (i + 1) j"
  have "?P (board_of (descend sp)) \<and> board_ok (board_of (descend sp))"
  proof (rule descend_invariant [where P = ?P, OF assms(1)])
    show "?P sp" using assms by simp
  next
    fix b i' j'
    assume "board_ok b" "?P b" "(1::nat) \<le> i'" "i' \<le> 28" "(1::nat) \<le> j'" "j' \<le> 158"
    then show "?P (descend_cell b i' j')"
      using assms(3,4) by (auto simp: cell_descend_cell)
  qed
  then show ?thesis by simp
qed

lemma count_list_update:
  "j < length xs \<Longrightarrow>
   count_list (xs[j := c]) x + (if xs ! j = x then 1 else 0) =
   count_list xs x + (if c = x then 1 else 0)"
proof (induction xs arbitrary: j)
  case Nil
  then show ?case by simp
next
  case (Cons a xs)
  show ?case
  proof (cases j)
    case 0
    then show ?thesis by simp
  next
    case (Suc k)
    with Cons.prems have "k < length xs" by simp
    from Cons.IH [OF this] show ?thesis by (auto simp: Suc split: if_splits)
  qed
qed

lemma sum_list_map_update:
  "i < length xs \<Longrightarrow>
   sum_list (map f (xs[i := y])) + f (xs ! i) = sum_list (map f xs) + (f y :: nat)"
proof (induction xs arbitrary: i)
  case Nil
  then show ?case by simp
next
  case (Cons a xs)
  show ?case
  proof (cases i)
    case 0
    then show ?thesis by simp
  next
    case (Suc k)
    with Cons.prems have "k < length xs" by simp
    from Cons.IH [OF this] show ?thesis by (simp add: Suc)
  qed
qed

lemma enemies_set_cell:
  assumes "i < length sp" "j < length (sp ! i)"
  shows "enemies (set_cell sp i j c) + (if cell sp i j = ENEMY then 1 else 0) =
         enemies sp + (if c = ENEMY then 1 else 0)"
proof -
  let ?f = "\<lambda>row. count_list row ENEMY"
  have "enemies (set_cell sp i j c) + ?f (sp ! i) = enemies sp + ?f ((sp ! i)[j := c])"
    using sum_list_map_update [OF assms(1), of ?f "(sp ! i)[j := c]"]
    by (simp add: enemies_def set_cell_def)
  moreover have "?f ((sp ! i)[j := c]) + (if sp ! i ! j = ENEMY then 1 else 0) =
                 ?f (sp ! i) + (if c = ENEMY then 1 else 0)"
    by (rule count_list_update [OF assms(2)])
  ultimately show ?thesis by (simp add: cell_def split: if_splits)
qed

lemma enemies_descend_cell:
  assumes "board_ok sp" "i < 29" "j < 160"
  shows "enemies (descend_cell sp i j) = enemies sp"
proof (cases "cell sp i j = ENEMY \<and> cell sp (i + 1) j = EMPTY")
  case False
  then show ?thesis by (auto simp: descend_cell_def)
next
  case True
  let ?m = "set_cell sp i j EMPTY"
  have len: "length sp = 30" "length (sp ! i) = 160" "length (sp ! (i + 1)) = 160"
    using assms by (simp_all add: board_ok_iff)
  have 1: "enemies ?m + 1 = enemies sp"
    using enemies_set_cell [of i sp j EMPTY] True assms len by simp
  have "cell ?m (i + 1) j = EMPTY" using True by (simp add: cell_set_cell)
  then have 2: "enemies (set_cell ?m (i + 1) j ENEMY) = enemies ?m + 1"
    using enemies_set_cell [of "i + 1" ?m j ENEMY] assms len by simp
  from 1 2 True show ?thesis by (simp add: descend_cell_def)
qed

lemma enemies_descend:
  assumes "board_ok sp"
  shows "enemies (board_of (descend sp)) = enemies sp"
proof -
  have "enemies (board_of (descend sp)) = enemies sp \<and> board_ok (board_of (descend sp))"
    by (rule descend_invariant [where P = "\<lambda>b. enemies b = enemies sp", OF assms])
       (simp_all add: enemies_descend_cell)
  then show ?thesis by simp
qed

subsection \<open>One iteration, step by step\<close>

lemma frame_eq:
  "space (frame s) = fst (bullet_step (space s) (bullets s))"
  "bullets (frame s) = snd (bullet_step (space s) (bullets s))"
  by (simp_all add: frame_def case_prod_beta)

lemma placed_simps [simp]:
  "shooter_position (placed s p) = p"
  "bullets (placed s p) = bullets s"
  "last_frame_time (placed s p) = last_frame_time s"
  "last_deploy_time (placed s p) = last_deploy_time s"
  "space (placed s p) = set_cell (set_cell (space s) 28 (shooter_position s) EMPTY) 28 p SHOOTER"
  by (simp_all add: placed_def)

lemma fire_simps [simp]:
  "last_frame_time (fire t s) = last_frame_time s"
  "last_deploy_time (fire t s) = last_deploy_time s"
  "bullets (fire t s) =
     (if milliseconds (t - last_bullet_time s) \<ge> 100 then bullets s @ [(27, shooter_position s)]
      else bullets s)"
  by (simp_all add: fire_def)

lemma deploy_simps [simp]:
  "bullets (deploy t c s) = bullets s"
  "last_frame_time (deploy t c s) = last_frame_time s"
  by (simp_all add: deploy_def)

lemma space_deploy:
  "space (deploy t c s) =
     (if seconds (t - last_deploy_time s) \<ge> 2 then set_cell (space s) 1 c ENEMY else space s)"
  by (simp add: deploy_def)

lemma tick_no_descent:
  assumes "switch_move (move inp) (shooter_position s) = Some p"
    and "milliseconds (now inp - last_frame_time s) < 500"
  shows "tick s inp =
           Running (frame (deploy (now inp) (random_column inp) (placed (fire (now inp) s) p)))"
  using assms by (simp add: tick_eq descent_def)

lemma tick_running_cases:
  assumes "tick s inp = Running s'"
  shows "\<exists>p x. switch_move (move inp) (shooter_position s) = Some p \<and> s' = frame x \<and>
           shooter_position x = p \<and> bullets x = bullets (fire (now inp) s) \<and>
           (space x = space (deploy (now inp) (random_column inp) (placed (fire (now inp) s) p)) \<or>
            descend (space (deploy (now inp) (random_column inp) (placed (fire (now inp) s) p)))
              = Inr (space x))"
proof (cases "switch_move (move inp) (shooter_position s)")
  case None
  with assms show ?thesis by (simp add: tick_eq)
next
  case (Some p)
  let ?x = "deploy (now inp) (random_column inp) (placed (fire (now inp) s) p)"
  from assms Some have d: "descent (now inp) ?x = Running s'" by (simp add: tick_eq)
  show ?thesis
  proof (cases "milliseconds (now inp - last_frame_time ?x) \<ge> 500")
    case False
    with d have "s' = frame ?x" by (simp add: descent_def)
    with Some show ?thesis by (intro exI [of _ p] exI [of _ ?x]) simp
  next
    case True
    with d obtain b where b: "descend (space ?x) = Inr b"
      "s' = frame (?x\<lparr>space := b, last_frame_time := now inp\<rparr>)"
      by (cases "descend (space ?x)") (auto simp: descent_def update_board_def)
    with Some show ?thesis
      by (intro exI [of _ p] exI [of _ "?x\<lparr>space := b, last_frame_time := now inp\<rparr>"]) simp
  qed
qed

lemma cell_before_descent:
  assumes "board_ok (space s)" "shooter_position s < 160" "p < 160" "c < 160"
  shows "cell (space (deploy t c (placed (fire t' s) p))) r k =
     (if seconds (t - last_deploy_time s) \<ge> 2 \<and> r = 1 \<and> k = c then ENEMY
      else if r = 28 \<and> k = p then SHOOTER
      else if r = 28 \<and> k = shooter_position s then EMPTY
      else cell (space s) r k)"
  using assms by (simp add: space_deploy cell_set_cell_ok)

subsection \<open>Exits and sample states\<close>

lemma tick_lost:
  assumes "switch_move (move inp) (shooter_position s) = Some p"
    and "milliseconds (now inp - last_frame_time s) \<ge> 500"
    and "descend (space (deploy (now inp) (random_column inp) (placed (fire (now inp) s) p))) = Inl b"
  shows "tick s inp =
     Exited Lost ((deploy (now inp) (random_column inp) (placed (fire (now inp) s) p))
        \<lparr>space := b,
          os := you_lost (os (deploy (now inp) (random_column inp) (placed (fire (now inp) s) p)))\<rparr>) 0"
  using assms by (simp add: tick_eq descent_def update_board_def)

lemma tick_descent_Inr:
  assumes "switch_move (move inp) (shooter_position s) = Some p"
    and "milliseconds (now inp - last_frame_time s) \<ge> 500"
    and "descend (space (deploy (now inp) (random_column inp) (placed (fire (now inp) s) p))) = Inr b"
  shows "tick s inp =
     Running (frame ((deploy (now inp) (random_column inp) (placed (fire (now inp) s) p))
        \<lparr>space := b, last_frame_time := now inp\<rparr>))"
  using assms by (simp add: tick_eq descent_def update_board_def)

lemma lost_where:
  assumes "board_ok sp" "descend sp = Inl b"
    and "\<forall>j. 1 \<le> j \<and> j \<le> 158 \<longrightarrow> cell sp 29 j \<noteq> ENEMY \<and> (cell sp 28 j = ENEMY \<longrightarrow> j = k)"
  shows "cell b 29 k = ENEMY"
  using descend_Inl_cause [OF assms(1,2)] assms(3) by auto

lemma sample_state_simps [simp]:
  "shooter_position (state_with sp) = 70" "bullets (state_with sp) = []"
  "last_bullet_time (state_with sp) = 0" "last_deploy_time (state_with sp) = 0"
  "last_frame_time (state_with sp) = 0"
  by (simp_all add: state_with_def start_def)

lemma inp_at_simps [simp]:
  "now (inp_at ms k c) = ms * 1000000" "move (inp_at ms k c) = k" "random_column (inp_at ms k c) = c"
  by (simp_all add: inp_at_def)

lemma inv_state_with:
  "board_ok sp \<Longrightarrow> border_clear sp \<Longrightarrow> inv (state_with sp)"
  by (simp add: inv_def bullets_ok_def cols_def)

lemma inv_enemy_low: "inv enemy_low"
  unfolding enemy_low_def
  by (rule inv_state_with) (simp_all add: border_clear_set_cell)

lemma quit_board:
  assumes "inv s" "tick s inp = Exited Quit s' st"
  shows "border_clear (space s')"
proof (cases "switch_move (move inp) (shooter_position s)")
  case None
  with assms(2) have "space s' = set_cell (space s) 28 (shooter_position s) EMPTY"
    by (auto simp: tick_eq)
  with assms(1) show ?thesis
    by (simp add: inv_def border_clear_set_cell cols_def)
next
  case (Some p)
  with assms(2) descent_world(2) show ?thesis by (fastforce simp: tick_eq)
qed

lemma lost_board:
  assumes "inv s" "input_ok inp" "tick s inp = Exited Lost s' st"
  shows "\<exists>j. 1 \<le> j \<and> j \<le> 158 \<and> cell (space s') 29 j = ENEMY"
proof (cases "switch_move (move inp) (shooter_position s)")
  case None
  with assms(3) show ?thesis by (simp add: tick_eq)
next
  case (Some p)
  let ?x = "deploy (now inp) (random_column inp) (placed (fire (now inp) s) p)"
  from mid_before_descent [OF assms(1,2) Some] have ok: "board_ok (space ?x)"
    by (simp add: mid_def)
  from assms(3) Some have "descent (now inp) ?x = Exited Lost s' st" by (simp add: tick_eq)
  then obtain b where "descend (space ?x) = Inl b" "space s' = b"
    by (cases "descend (space ?x)") (auto simp: descent_def update_board_def split: if_splits)
  with descend_Inl_enemy [OF ok] show ?thesis by simp
qed

lemma run_exit_board:
  "inv s \<Longrightarrow> list_all input_ok inps \<Longrightarrow> run s inps = Exited r s' st \<Longrightarrow>
   (case r of Quit \<Rightarrow> border_clear (space s')
    | Lost \<Rightarrow> \<exists>j. 1 \<le> j \<and> j \<le> 158 \<and> cell (space s') 29 j = ENEMY)"
proof (induction inps arbitrary: s)
  case Nil
  then show ?case by simp
next
  case (Cons inp inps)
  show ?case
  proof (cases "tick s inp")
    case (Running s1)
    with Cons.prems have "inv s1" "run s1 inps = Exited r s' st"
      by (auto dest: inv_tick)
    with Cons.IH [of s1] Cons.prems(2) show ?thesis by simp
  next
    case (Exited r1 s1 st1)
    with Cons.prems(3) have e: "tick s inp = Exited r s' st" by simp
    show ?thesis
    proof (cases r)
      case Quit
      with quit_board [OF Cons.prems(1)] e show ?thesis by simp
    next
      case Lost
      from Cons.prems(2) have "input_ok inp" by simp
      from lost_board [OF Cons.prems(1) this] e Lost show ?thesis by simp
    qed
  qed
qed

lemma inv_interior:
  assumes "inv s"
  shows "(\<forall>r<rows. \<forall>c<cols. on_border r c \<longrightarrow> cell (space s) r c = EMPTY) \<and>
         \<not> on_border 28 (shooter_position s) \<and>
         (\<forall>b\<in>set (bullets s). \<not> on_border (fst b) (snd b))"
proof -
  from assms have a: "border_clear (space s)" "1 \<le> shooter_position s"
    "shooter_position s \<le> 158" "bullets_ok (bullets s)"
    by (simp_all add: inv_def cols_def)
  have "\<forall>b\<in>set (bullets s). \<not> on_border (fst b) (snd b)"
    using a(4) by (auto simp: bullets_ok_def list_all_iff on_border_iff cols_def)
  with a show ?thesis
    by (simp add: border_clear_alt rows_def cols_def on_border_iff)
qed

lemma start_simps [simp]:
  "shooter_position (start w a b c) = 70" "bullets (start w a b c) = []"
  "last_bullet_time (start w a b c) = a" "last_deploy_time (start w a b c) = b"
  "last_frame_time (start w a b c) = c" "space (start w a b c) = empty_board"
  by (simp_all add: start_def empty_board_def)

lemma bullets_live_single [simp]: "1 \<le> p \<Longrightarrow> p \<le> 158 \<Longrightarrow> bullets_live [(27, p)]"
  by (simp add: bullets_live_def cols_def)

lemma enemies_zero:
  assumes "board_ok sp" "enemies sp = 0" "r < 30" "c < 160"
  shows "cell sp r c \<noteq> ENEMY"
proof -
  from assms(1,3) have len: "r < length sp" "length (sp ! r) = 160" by (simp_all add: board_ok_iff)
  from assms(2) have "\<forall>row\<in>set sp. count_list row ENEMY = 0"
    by (simp add: enemies_def)
  with len(1) have "count_list (sp ! r) ENEMY = 0" by simp
  then have "ENEMY \<notin> set (sp ! r)" by (simp add: count_list_0_iff)
  with len(2) assms(4) show ?thesis
    unfolding cell_def by (metis nth_mem)
qed

lemma enemies_empty_board [simp]: "enemies empty_board = 0"
  by (simp add: enemies_def empty_board_def count_list_0_iff)

lemma frame_keeps_shooter:
  assumes "board_ok (space x)" "bullets_live (bullets x)" "cell (space x) 28 p = SHOOTER"
  shows "cell (space (frame x)) 28 p = SHOOTER"
proof -
  have "(28, p) \<notin> set (map bullet_up (filter (bullet_flies (space x)) (bullets x)))"
    using new_bullets_range [OF assms(2), of "(28, p)" "space x"] by auto
  with assms(3) show ?thesis
    by (simp add: frame_eq bullet_step_cell [OF assms(1,2)])
qed

lemma descend_keeps_shooter:
  assumes "board_ok sp" "cell sp r c = SHOOTER"
  shows "cell (board_of (descend sp)) r c = SHOOTER"
  using descend_keeps_others [OF assms(1), of r c] assms(2) by auto

lemma inv_enemy_beside: "inv enemy_beside"
  unfolding enemy_beside_def
  by (rule inv_state_with) (simp_all add: border_clear_set_cell)

lemma descend_cell_blocked: "cell b (i + 1) j \<noteq> EMPTY \<Longrightarrow> descend_cell b i j = b"
  by (simp add: descend_cell_def)

lemma board_ok_enemy_on_shooter [simp]: "board_ok enemy_on_shooter"
  by (simp add: enemy_on_shooter_def)

lemma cell_enemy_on_shooter:
  "cell enemy_on_shooter r c =
     (if r = 28 \<and> c = 70 then SHOOTER else if r = 27 \<and> c = 70 then ENEMY
      else cell empty_board r c)"
  by (simp add: enemy_on_shooter_def cell_set_cell)

subsection \<open>Enemies and bullets through the advancement step\<close>

lemma frame_times [simp]:
  "last_bullet_time (frame s) = last_bullet_time s"
  "last_deploy_time (frame s) = last_deploy_time s"
  "last_frame_time (frame s) = last_frame_time s"
  by (simp_all add: frame_def case_prod_beta)

lemma last_bullet_time_simps [simp]:
  "last_bullet_time (deploy t c s) = last_bullet_time s"
  "last_bullet_time (placed s p) = last_bullet_time s"
  "last_bullet_time (fire t s) =
     (if milliseconds (t - last_bullet_time s) \<ge> 100 then t else last_bullet_time s)"
  by (simp_all add: deploy_def placed_def fire_def)

lemma not_in_new_bullets:
  assumes "bullets_live bs" "(r, c) \<in> set bs" "\<not> bullet_flies sp (r, c)"
  shows "(r - 1, c) \<notin> set (map bullet_up (filter (bullet_flies sp) bs))"
proof
  assume "(r - 1, c) \<in> set (map bullet_up (filter (bullet_flies sp) bs))"
  then obtain b where b: "b \<in> set bs" "bullet_flies sp b" "bullet_up b = (r - 1, c)" by auto
  then have "fst b - 1 = r - 1" "snd b = c" "fst b - 1 \<ge> 1" 
    by (auto simp: bullet_up_def bullet_flies_def)
  moreover have "1 \<le> r" using bullets_live_range [OF assms(1,2)] by simp
  ultimately have "b = (r, c)" by (cases b) auto
  with b(2) assms(3) show False by simp
qed

lemma enemies_set_cell_same:
  assumes "board_ok sp" "i < 30" "j < 160" "cell sp i j \<noteq> ENEMY" "c \<noteq> ENEMY"
  shows "enemies (set_cell sp i j c) = enemies sp"
  using enemies_set_cell [of i sp j c] assms by (simp add: board_ok_iff)

lemma enemies_set_cell_hit:
  assumes "board_ok sp" "i < 30" "j < 160" "cell sp i j = ENEMY"
  shows "enemies (set_cell sp i j EMPTY) + 1 = enemies sp"
  using enemies_set_cell [of i sp j EMPTY] assms by (simp add: board_ok_iff)

lemma enemies_erase:
  "board_ok sp \<Longrightarrow> \<forall>b\<in>set bs. fst b < 30 \<and> snd b < 160 \<Longrightarrow>
   enemies (erase_bullets sp bs) = enemies sp"
proof (induction bs arbitrary: sp)
  case Nil
  then show ?case by simp
next
  case (Cons b bs)
  then show ?case by (simp add: enemies_set_cell_same)
qed

lemma enemies_draw:
  "board_ok sp \<Longrightarrow> \<forall>b\<in>set bs. fst b < 30 \<and> snd b < 160 \<and> cell sp (fst b) (snd b) \<noteq> ENEMY \<Longrightarrow>
   enemies (draw_bullets sp bs) = enemies sp"
proof (induction bs arbitrary: sp)
  case Nil
  then show ?case by simp
next
  case (Cons b bs)
  have "enemies (draw_bullets (set_cell sp (fst b) (snd b) BULLET) bs) =
        enemies (set_cell sp (fst b) (snd b) BULLET)"
    using Cons.prems by (intro Cons.IH) (auto simp: cell_set_cell_ok)
  with Cons.prems show ?case by (simp add: enemies_set_cell_same)
qed

lemma enemies_advance:
  "board_ok sp \<Longrightarrow> \<forall>b\<in>set bs. fst b \<le> 30 \<and> snd b < 160 \<Longrightarrow> sorted_wrt (<) (map fst bs) \<Longrightarrow>
   enemies (fst (advance_bullets sp acc bs)) + length (filter (bullet_hits sp) bs) = enemies sp"
proof (induction bs arbitrary: sp acc)
  case Nil
  then show ?case by simp
next
  case (Cons b bs)
  obtain br bc where b: "b = (br, bc)" by (cases b)
  with Cons.prems have "br \<le> 30" "bc < 160" by simp_all
  then have r: "br - 1 < 30" "bc < 160" by arith+
  have later: "\<forall>x\<in>set bs. br < fst x" using Cons.prems(3) by (auto simp: b)
  show ?case
  proof (cases "bullet_hits sp b")
    case True
    then have hit: "br - 1 \<ge> 1" "cell sp (br - 1) bc = ENEMY" by (simp_all add: b bullet_hits_def)
    let ?sp = "set_cell sp (br - 1) bc EMPTY"
    have same: "filter (bullet_hits ?sp) bs = filter (bullet_hits sp) bs"
    proof (rule filter_cong [OF refl])
      fix x assume "x \<in> set bs"
      with later have "br < fst x" by simp
      then have "fst x - 1 \<noteq> br - 1" using hit(1) by arith
      then show "bullet_hits ?sp x = bullet_hits sp x"
        using Cons.prems(1) r by (simp add: bullet_hits_def cell_set_cell_ok)
    qed
    have "fst (advance_bullets sp acc (b # bs)) = fst (advance_bullets ?sp acc bs)"
      using hit by (simp add: b Let_def)
    moreover have "enemies (fst (advance_bullets ?sp acc bs)) + length (filter (bullet_hits ?sp) bs) =
                   enemies ?sp"
      using Cons.prems by (intro Cons.IH) simp_all
    moreover have "enemies ?sp + 1 = enemies sp"
      using Cons.prems(1) r hit(2) by (rule enemies_set_cell_hit)
    ultimately show ?thesis using True same by simp
  next
    case False
    have IH: "\<And>acc'. enemies (fst (advance_bullets sp acc' bs)) + length (filter (bullet_hits sp) bs) =
                 enemies sp"
      using Cons.prems by (intro Cons.IH) simp_all
    have "fst (advance_bullets sp acc (b # bs)) = fst (advance_bullets sp acc bs) \<or>
          fst (advance_bullets sp acc (b # bs)) = fst (advance_bullets sp (acc @ [(br - 1, bc)]) bs)"
      using False by (auto simp: b Let_def bullet_hits_def)
    with IH False show ?thesis by auto
  qed
qed

lemma bullet_hits_erase:
  assumes "board_ok sp" "\<forall>b\<in>set bs. fst b < 30 \<and> snd b < 160"
  shows "bullet_hits (erase_bullets sp bs) b = bullet_hits sp b"
  using assms by (simp add: bullet_hits_def cell_erase)

lemma enemies_bullet_step:
  assumes "board_ok sp" "bullets_live bs"
  shows "enemies (fst (bullet_step sp bs)) + length (filter (bullet_hits sp) bs) = enemies sp"
proof -
  let ?e = "erase_bullets sp bs"
  let ?a = "advance_bullets ?e [] bs"
  have r: "\<forall>b\<in>set bs. fst b < 30 \<and> snd b < 160"
    using bullets_live_range [OF assms(2)] by fastforce
  then have r': "\<forall>b\<in>set bs. fst b \<le> 30 \<and> snd b < 160" by fastforce
  have nb: "snd ?a = map bullet_up (filter (bullet_flies sp) bs)"
    using bullet_step_bullets [OF assms] by (simp add: bullet_step_eq)
  have "\<forall>b\<in>set (snd ?a). fst b < 30 \<and> snd b < 160 \<and> cell (fst ?a) (fst b) (snd b) \<noteq> ENEMY"
  proof
    fix x assume x: "x \<in> set (snd ?a)"
    then have "1 \<le> fst x \<and> fst x \<le> 26 \<and> 1 \<le> snd x \<and> snd x \<le> 158"
      unfolding nb by (rule new_bullets_range [OF assms(2)])
    moreover have "cell (fst ?a) (fst x) (snd x) \<noteq> ENEMY"
    proof -
      from x obtain b where "b \<in> set bs" "bullet_flies sp b" "x = bullet_up b"
        unfolding nb by auto
      then have "cell sp (fst x) (snd x) \<noteq> ENEMY"
        by (simp add: bullet_flies_def bullet_up_def)
      then have "cell ?e (fst x) (snd x) \<noteq> ENEMY"
        using assms(1) r by (simp add: cell_erase)
      then show ?thesis
        using assms(1) r' by (simp add: cell_advance)
    qed
    ultimately show "fst x < 30 \<and> snd x < 160 \<and> cell (fst ?a) (fst x) (snd x) \<noteq> ENEMY" by simp
  qed
  then have "enemies (fst (bullet_step sp bs)) = enemies (fst ?a)"
    using assms(1) by (simp add: bullet_step_eq enemies_draw)
  moreover have "enemies (fst ?a) + length (filter (bullet_hits ?e) bs) = enemies ?e"
    using assms r' by (intro enemies_advance) (simp_all add: bullets_live_sorted)
  moreover have "filter (bullet_hits ?e) bs = filter (bullet_hits sp) bs"
    by (rule filter_cong [OF refl]) (simp add: bullet_hits_erase [OF assms(1) r])
  moreover have "enemies ?e = enemies sp" using assms(1) r by (rule enemies_erase)
  ultimately show ?thesis by simp
qed

lemma board_ok_bullet_on_board [simp]: "board_ok bullet_on_board"
  by (simp add: bullet_on_board_def)

lemma cell_bullet_on_board:
  "cell bullet_on_board r c =
     (if r = 28 \<and> c = 70 then SHOOTER else if r = 26 \<and> c = 70 then BULLET
      else cell empty_board r c)"
  by (simp add: bullet_on_board_def cell_set_cell)

subsection \<open>The descent cell by cell\<close>

declare vacated.simps [simp del]

lemma vacated_iff:
  "1 \<le> i \<Longrightarrow> 1 \<le> j \<Longrightarrow> j \<le> 158 \<Longrightarrow>
   vacated sp i j \<longleftrightarrow> cell sp i j = EMPTY \<or> moves sp i j"
  by (subst vacated.simps) (auto simp: moves_def)

lemma row_loop_so_far:
  assumes "board_ok cur" "1 \<le> i" "i \<le> 28" "distinct js" "\<forall>j\<in>set js. 1 \<le> j \<and> j \<le> 158"
    and "so_far sp i js cur" and "row_loop cur i js = Inr b"
  shows "so_far sp i [] b \<and> board_ok b"
  using assms
proof (induction js arbitrary: cur)
  case Nil
  then show ?case by simp
next
  case (Cons j js)
  let ?n = "descend_cell cur i j"
  have j: "1 \<le> j" "j \<le> 158" "j < 160" "i < 29" "i < 30" "i + 1 < 30" "j \<notin> set js"
    using Cons.prems(2,3,4,5) by auto
  have vis: "\<not> visited i (j # js) i j" "i \<ge> 1 \<Longrightarrow> \<not> visited i (j # js) (i - 1) j"
    using Cons.prems(2) by (auto simp: visited_def)
  have cur_i: "cell cur i j = cell sp i j"
    using Cons.prems(6) j vis Cons.prems(2) unfolding so_far_def by auto
  have cur_below: "cell cur (i + 1) j = (if moves sp (i + 1) j then EMPTY else cell sp (i + 1) j)"
  proof -
    have "visited i (j # js) (i + 1) j" by (simp add: visited_def)
    moreover have "cell cur (i + 1) j =
      (if 1 \<le> i + 1 \<and> moves sp (i + 1 - 1) j \<and> visited i (j # js) (i + 1 - 1) j then ENEMY
       else if moves sp (i + 1) j \<and> visited i (j # js) (i + 1) j then EMPTY
       else cell sp (i + 1) j)"
      using Cons.prems(6) j unfolding so_far_def by blast
    ultimately show ?thesis using vis(1) by simp
  qed
  have cond: "cell cur i j = ENEMY \<and> cell cur (i + 1) j = EMPTY \<longleftrightarrow> moves sp i j"
  proof -
    have v: "vacated sp (i + 1) j \<longleftrightarrow> cell sp (i + 1) j = EMPTY \<or> moves sp (i + 1) j"
      using j by (intro vacated_iff) simp_all
    have e: "cell cur (i + 1) j = EMPTY \<longleftrightarrow> vacated sp (i + 1) j"
      unfolding cur_below v by simp
    have m: "moves sp i j \<longleftrightarrow> cell sp i j = ENEMY \<and> vacated sp (i + 1) j"
      using Cons.prems(2,3) j(1,2) by (simp add: moves_def)
    show ?thesis unfolding cur_i e m ..
  qed
  have cn: "\<And>r c. cell ?n r c =
     (if moves sp i j \<and> c = j
      then (if r = i then EMPTY else if r = i + 1 then ENEMY else cell cur r c)
      else cell cur r c)"
    using Cons.prems(1) j cond by (auto simp: cell_descend_cell)
  have nxt: "so_far sp i js ?n"
    unfolding so_far_def
  proof (intro allI impI)
    fix r c :: nat assume rc: "r < 30" "c < 160"
    have old: "cell cur r c =
          (if 1 \<le> r \<and> moves sp (r - 1) c \<and> visited i (j # js) (r - 1) c then ENEMY
           else if moves sp r c \<and> visited i (j # js) r c then EMPTY
           else cell sp r c)"
      using Cons.prems(6) rc unfolding so_far_def by blast
    have v: "visited i js r' c' \<longleftrightarrow> visited i (j # js) r' c' \<or> (r' = i \<and> c' = j)" for r' c'
      using j(7) by (auto simp: visited_def)
    show "cell ?n r c =
          (if 1 \<le> r \<and> moves sp (r - 1) c \<and> visited i js (r - 1) c then ENEMY
           else if moves sp r c \<and> visited i js r c then EMPTY
           else cell sp r c)"
    proof (cases "c = j \<and> (r = i \<or> r = i + 1)")
      case False
      then have "cell ?n r c = cell cur r c" by (auto simp: cn)
      moreover have "visited i js (r - 1) c \<longleftrightarrow> visited i (j # js) (r - 1) c" if "1 \<le> r"
        using False that by (auto simp: v)
      moreover have "visited i js r c \<longleftrightarrow> visited i (j # js) r c"
        using False by (auto simp: v)
      ultimately show ?thesis using old by auto
    next
      case True
      then have c: "c = j" by simp
      from True consider "r = i" | "r = i + 1" by blast
      then show ?thesis
      proof cases
        case 1
        have "\<not> visited i js (i - 1) j" using Cons.prems(2) by (auto simp: visited_def)
        moreover have "visited i js i j" using j(7) by (simp add: visited_def)
        ultimately show ?thesis
          using 1 c cur_i Cons.prems(2) by (auto simp: cn)
      next
        case 2
        have "visited i js i j" "visited i js (i + 1) j" using j(7) by (simp_all add: visited_def)
        then show ?thesis
          using 2 c cur_below by (auto simp: cn)
      qed
    qed
  qed
  from Cons.prems(7) have "row_loop ?n i js = Inr b"
    by (simp add: Let_def split: if_splits)
  with nxt Cons.prems(1,2,3,4,5) show ?case
    by (intro Cons.IH) simp_all
qed

lemma visited_row_done:
  assumes "moves sp r c" "1 \<le> i"
  shows "visited (i - 1) [1 ..< 159] r c = visited i [] r c"
  using assms by (auto simp: visited_def moves_def)

lemma so_far_row_done:
  assumes "1 \<le> i" "so_far sp i [] cur"
  shows "so_far sp (i - 1) [1 ..< 159] cur"
  unfolding so_far_def
proof (intro allI impI)
  fix r c :: nat assume rc: "r < 30" "c < 160"
  have "moves sp (r - 1) c \<and> visited (i - 1) [1 ..< 159] (r - 1) c \<longleftrightarrow>
        moves sp (r - 1) c \<and> visited i [] (r - 1) c"
    using visited_row_done [OF _ assms(1)] by blast
  moreover have "moves sp r c \<and> visited (i - 1) [1 ..< 159] r c \<longleftrightarrow>
        moves sp r c \<and> visited i [] r c"
    using visited_row_done [OF _ assms(1)] by blast
  moreover have "cell cur r c =
          (if 1 \<le> r \<and> moves sp (r - 1) c \<and> visited i [] (r - 1) c then ENEMY
           else if moves sp r c \<and> visited i [] r c then EMPTY
           else cell sp r c)"
    using assms(2) rc unfolding so_far_def by blast
  ultimately show "cell cur r c =
          (if 1 \<le> r \<and> moves sp (r - 1) c \<and> visited (i - 1) [1 ..< 159] (r - 1) c then ENEMY
           else if moves sp r c \<and> visited (i - 1) [1 ..< 159] r c then EMPTY
           else cell sp r c)"
    by simp
qed

lemma board_loop_so_far:
  "board_ok cur \<Longrightarrow> k \<le> 28 \<Longrightarrow> so_far sp k [1 ..< 159] cur \<Longrightarrow>
   board_loop cur (rev [1 ..< Suc k]) = Inr b \<Longrightarrow> so_far sp 0 [1 ..< 159] b"
proof (induction k arbitrary: cur)
  case 0
  then show ?case by simp
next
  case (Suc k)
  have len: "length (cur ! 0) = 160" using Suc.prems(1) by (simp add: board_ok_iff)
  have rs: "rev [1 ..< Suc (Suc k)] = Suc k # rev [1 ..< Suc k]" by simp
  from Suc.prems(4) obtain b1 where b1: "row_loop cur (Suc k) [1 ..< 159] = Inr b1"
    "board_loop b1 (rev [1 ..< Suc k]) = Inr b"
    unfolding rs by (auto simp: len split: sum.splits)
  have "so_far sp (Suc k) [] b1 \<and> board_ok b1"
    using Suc.prems(1,2,3) b1(1) by (intro row_loop_so_far [where cur = cur]) auto
  then have "so_far sp k [1 ..< 159] b1" "board_ok b1"
    using so_far_row_done [of "Suc k" sp b1] by simp_all
  with Suc.prems(2) b1(2) show ?case by (intro Suc.IH [of b1]) simp_all
qed

lemma descend_descended:
  assumes "board_ok sp" "descend sp = Inr b" "r < 30" "c < 160"
  shows "cell b r c = descended sp r c"
proof -
  have "so_far sp 28 [1 ..< 159] sp"
    unfolding so_far_def by (auto simp: visited_def moves_def)
  moreover have "descend sp = board_loop sp (rev [1 ..< Suc 28])"
    using assms(1) by (simp add: descend_def board_ok_iff)
  ultimately have "so_far sp 0 [1 ..< 159] b"
    using assms(1,2) by (intro board_loop_so_far [where cur = sp and k = 28]) simp_all
  moreover have "visited 0 [1 ..< 159] r' c'" if "moves sp r' c'" for r' c'
    using that by (auto simp: visited_def moves_def)
  ultimately show ?thesis
    using assms(3,4) unfolding so_far_def descended_def by (auto simp: moves_def)
qed

lemma board_ok_enemy_stack [simp]: "board_ok enemy_stack"
  by (simp add: enemy_stack_def)

lemma cell_enemy_stack:
  "cell enemy_stack r c =
     (if (r = 5 \<or> r = 6) \<and> c = 80 then ENEMY else cell empty_board r c)"
  by (simp add: enemy_stack_def cell_set_cell)

lemma descend_cell_moves:
  assumes "board_ok b" "i < 29" "j < 160" "cell b i j = ENEMY" "cell b (i + 1) j = EMPTY"
  shows "cell (descend_cell b i j) i j = EMPTY \<and> cell (descend_cell b i j) (i + 1) j = ENEMY"
  using assms by (simp add: cell_descend_cell)

section \<open>Properties of the game\<close>

text \<open>
  C4: whatever keys arrive and however many, the shooter's column stays within
  \<open>[1, cols - 2]\<close>. In one iteration the key \<open>a\<close> decrements the column only when it
  is greater than \<open>1\<close>, the key \<open>d\<close> increments it only when it is less than
  \<open>cols - 2\<close>, and every other key leaves it as it is: the column saturates at the
  two ends, it never wraps and the move never fails.
\<close>

theorem shooter_column_clamped:
  assumes "1 \<le> shooter_position s" and "shooter_position s \<le> cols - 2"
  shows "1 \<le> shooter_position (state_of (run s inps)) \<and>
         shooter_position (state_of (run s inps)) \<le> cols - 2 \<and>
         shooter_position (state_of (tick s inp)) =
           (if move inp = CHR ''a''
              then (if shooter_position s > 1 then shooter_position s - 1
                    else shooter_position s)
            else if move inp = CHR ''d''
              then (if shooter_position s < cols - 2 then shooter_position s + 1
                    else shooter_position s)
            else shooter_position s)"
  using shooter_run_range [OF assms, of inps]
  by (simp add: shooter_tick switch_move_def)

theorem shooter_column_clamped_witness:
  "1 \<le> shooter_position (start w0 0 0 0) \<and> shooter_position (start w0 0 0 0) \<le> cols - 2 \<and>
   1 \<le> shooter_position (state_of (run (start w0 0 0 0)
          [inp_at 10 (CHR ''d'') 1, inp_at 20 (CHR ''a'') 1])) \<and>
   shooter_position (state_of (run (start w0 0 0 0)
          [inp_at 10 (CHR ''d'') 1, inp_at 20 (CHR ''a'') 1])) \<le> cols - 2 \<and>
   shooter_position (state_of (tick (start w0 0 0 0) (inp_at 10 (CHR ''d'') 1))) = 71"
proof -
  have h: "1 \<le> shooter_position (start w0 0 0 0)"
    "shooter_position (start w0 0 0 0) \<le> cols - 2"
    by (simp_all add: start_def cols_def)
  have p: "shooter_position (start w0 0 0 0) = 70" by (simp add: start_def)
  show ?thesis
    using h shooter_column_clamped [OF h, of
      "[inp_at 10 (CHR ''d'') 1, inp_at 20 (CHR ''a'') 1]" "inp_at 10 (CHR ''d'') 1"]
    by (simp add: p cols_def inp_at_def)
qed

text \<open>
  C2: when a cell of the last playable row (row \<open>rows - 2\<close>) holds an enemy, one
  update behind the descent gate ends the game in the state \<open>Lost\<close>. The column \<open>j\<close>
  is any of the full width \<open>1 .. cols - 2\<close>, and the gate is any in which the
  interval has elapsed. The border cell below the enemy is empty, as it is in every
  state the loop reaches: the enemy steps into it and the check of row \<open>29\<close> finds it.
\<close>
theorem loss_detected:
  assumes "board_ok (space s)" and "1 \<le> j" and "j \<le> cols - 2"
    and "cell (space s) (rows - 2) j = ENEMY"
    and "cell (space s) (rows - 1) j = EMPTY"
    and "milliseconds (t - last_frame_time s) \<ge> 500"
  shows "\<exists>lost. descent t s = Exited Lost (s\<lparr>space := lost, os := you_lost (os s)\<rparr>) 0"
proof -
  have "\<exists>b. descend (space s) = Inl b"
    by (rule descend_lost [of _ j]) (use assms in \<open>simp_all add: rows_def cols_def\<close>)
  then obtain b where "descend (space s) = Inl b" ..
  then have "descent t s = Exited Lost (s\<lparr>space := b, os := you_lost (os s)\<rparr>) 0"
    using assms(6) by (simp add: descent_def update_board_def)
  then show ?thesis ..
qed

theorem loss_detected_witness:
  "board_ok (space (state_with (set_cell empty_board 28 5 ENEMY))) \<and> (1::nat) \<le> 5 \<and> 5 \<le> cols - 2 \<and>
   cell (space (state_with (set_cell empty_board 28 5 ENEMY))) (rows - 2) 5 = ENEMY \<and>
   cell (space (state_with (set_cell empty_board 28 5 ENEMY))) (rows - 1) 5 = EMPTY \<and>
   milliseconds (500000000 - last_frame_time (state_with (set_cell empty_board 28 5 ENEMY))) \<ge> 500 \<and>
   (\<exists>lost. descent 500000000 (state_with (set_cell empty_board 28 5 ENEMY)) =
      Exited Lost ((state_with (set_cell empty_board 28 5 ENEMY))
         \<lparr>space := lost, os := you_lost (os (state_with (set_cell empty_board 28 5 ENEMY)))\<rparr>) 0)"
proof -
  let ?s = "state_with (set_cell empty_board 28 5 ENEMY)"
  have h: "board_ok (space ?s)" "(1::nat) \<le> 5" "5 \<le> cols - 2"
    "cell (space ?s) (rows - 2) 5 = ENEMY" "cell (space ?s) (rows - 1) 5 = EMPTY"
    "milliseconds (500000000 - last_frame_time ?s) \<ge> 500"
    by (simp_all add: cell_set_cell rows_def cols_def milliseconds_def trunc_div_def
        state_with_def start_def)
  from loss_detected [OF h] h show ?thesis by blast
qed

text \<open>
  C8: both exits have the same shape. When the loop started by \<^verbatim>\<open>main\<close> leaves through
  \<open>Quit\<close> or through \<open>Lost\<close>, the terminal has the attributes it had before the program
  switched to raw mode, reads on stdin block again, the last bytes printed are the
  final message of that exit (\<^verbatim>\<open>Quit.\<close> or \<^verbatim>\<open>You lost\<close>), no input that follows is
  processed, and the exit status is \<open>0\<close>.
\<close>
theorem exits_restore_terminal:
  assumes "run (start w t_bullet t_deploy t_frame) inps = Exited r s' status"
  shows "tty (os s') = tty w \<and> O_NONBLOCK \<notin> stdin_flags (os s') \<and>
         (\<exists>printed. out (os s') = printed @ final_message r) \<and>
         run (start w t_bullet t_deploy t_frame) (inps @ rest) = Exited r s' status \<and>
         status = 0"
  using run_exited [OF assms, of rest] by (simp add: start_def)

theorem exits_restore_terminal_witness:
  "run (start w0 0 0 0) [inp_at 10 (CHR ''q'') 1] =
     Exited Quit (state_of (tick (start w0 0 0 0) (inp_at 10 (CHR ''q'') 1))) 0 \<and>
   tty (os (state_of (tick (start w0 0 0 0) (inp_at 10 (CHR ''q'') 1)))) = tty w0 \<and>
   O_NONBLOCK \<notin> stdin_flags (os (state_of (tick (start w0 0 0 0) (inp_at 10 (CHR ''q'') 1)))) \<and>
   (\<exists>printed. out (os (state_of (tick (start w0 0 0 0) (inp_at 10 (CHR ''q'') 1)))) =
       printed @ final_message Quit) \<and>
   run (start w0 0 0 0) ([inp_at 10 (CHR ''q'') 1] @ [inp_at 20 (CHR ''a'') 1]) =
     Exited Quit (state_of (tick (start w0 0 0 0) (inp_at 10 (CHR ''q'') 1))) 0"
proof -
  have t: "\<exists>s'. tick (start w0 0 0 0) (inp_at 10 (CHR ''q'') 1) = Exited Quit s' 0"
    by (simp add: tick_def Let_def switch_move_def inp_at_def)
  then have h: "run (start w0 0 0 0) [inp_at 10 (CHR ''q'') 1] =
     Exited Quit (state_of (tick (start w0 0 0 0) (inp_at 10 (CHR ''q'') 1))) 0"
    by auto
  from exits_restore_terminal [OF h, of "[inp_at 20 (CHR ''a'') 1]"] h show ?thesis by blast
qed




text \<open>
  C6, as the code has it: the firing gate (lines 121--124) stands before the switch on
  the key (lines 130--144). In an iteration in which the firing interval has elapsed
  and which goes on running, the bullet enqueued is \<open>(27, c)\<close> with \<open>c\<close> the shooter's column
  before this iteration's movement: the bullets after the iteration are the advancement
  of the old bullets followed by that one, and a bullet that is in row \<open>26\<close> afterwards is
  in column \<open>c\<close>.
\<close>
theorem bullet_fired_before_move:
  assumes "inv s" and "milliseconds (now inp - last_bullet_time s) \<ge> 100"
    and "tick s inp = Running s'"
  shows "(\<exists>sp. bullet_step sp (bullets s @ [(27, shooter_position s)]) = (space s', bullets s')) \<and>
         (\<forall>b\<in>set (bullets s'). fst b = 26 \<longrightarrow> snd b = shooter_position s)"
proof -
  from tick_running_cases [OF assms(3)] obtain p x where
    x: "s' = frame x" "bullets x = bullets (fire (now inp) s)" by blast
  with assms(2) have bx: "bullets x = bullets s @ [(27, shooter_position s)]" by simp
  have 1: "bullet_step (space x) (bullets s @ [(27, shooter_position s)]) = (space s', bullets s')"
    by (simp add: x(1) frame_eq bx)
  have 2: "snd b = shooter_position s" if "b \<in> set (bullets s')" "fst b = 26" for b
  proof -
    from that(1) have "b \<in> set (snd (advance_bullets (erase_bullets (space x) (bullets x)) [] (bullets x)))"
      by (simp add: x(1) frame_eq bullet_step_eq)
    from advance_subset [OF this] that(2)
    have "(27, snd b) \<in> set (bullets s @ [(27, shooter_position s)])" by (simp add: bx)
    moreover have "\<forall>y\<in>set (bullets s). fst y \<le> 26"
      using assms(1) by (simp add: inv_def bullets_ok_def list_all_iff)
    ultimately show ?thesis by fastforce
  qed
  from 1 2 show ?thesis by blast
qed

theorem bullet_fired_before_move_witness:
  "inv (start w0 0 0 0) \<and>
   milliseconds (now (inp_at 100 (CHR ''a'') 1) - last_bullet_time (start w0 0 0 0)) \<ge> 100 \<and>
   tick (start w0 0 0 0) (inp_at 100 (CHR ''a'') 1) =
     Running (state_of (tick (start w0 0 0 0) (inp_at 100 (CHR ''a'') 1))) \<and>
   (\<exists>sp. bullet_step sp (bullets (start w0 0 0 0) @ [(27, shooter_position (start w0 0 0 0))]) =
      (space (state_of (tick (start w0 0 0 0) (inp_at 100 (CHR ''a'') 1))),
       bullets (state_of (tick (start w0 0 0 0) (inp_at 100 (CHR ''a'') 1))))) \<and>
   list_all (\<lambda>b. fst b \<noteq> 26 \<or> snd b = shooter_position (start w0 0 0 0))
     (bullets (state_of (tick (start w0 0 0 0) (inp_at 100 (CHR ''a'') 1))))"
proof -
  let ?i = "inp_at 100 (CHR ''a'') 1"
  let ?s = "start w0 0 0 0"
  have h: "inv ?s" "milliseconds (now ?i - last_bullet_time ?s) \<ge> 100"
    by (simp_all add: milliseconds_def trunc_div_def)
  have "\<exists>s'. tick ?s ?i = Running s'"
    using tick_no_descent [of ?i ?s 69]
    by (simp add: switch_move_def milliseconds_def trunc_div_def)
  then have r: "tick ?s ?i = Running (state_of (tick ?s ?i))" by auto
  from bullet_fired_before_move [OF h r] h r show ?thesis
    unfolding list_all_iff by blast
qed

text \<open>
  C6 as stated fails: with the key \<open>a\<close> consumed in the iteration in which the firing
  interval elapses, the shooter ends in column \<open>69\<close> and the bullet fired in this
  iteration is in column \<open>70\<close>.
\<close>
theorem bullet_column_is_not_the_moved_column:
  "milliseconds (now (inp_at 100 (CHR ''a'') 1) - last_bullet_time (start w0 0 0 0)) \<ge> 100 \<and>
   tick (start w0 0 0 0) (inp_at 100 (CHR ''a'') 1) =
     Running (state_of (tick (start w0 0 0 0) (inp_at 100 (CHR ''a'') 1))) \<and>
   shooter_position (state_of (tick (start w0 0 0 0) (inp_at 100 (CHR ''a'') 1))) = 69 \<and>
   bullets (state_of (tick (start w0 0 0 0) (inp_at 100 (CHR ''a'') 1))) = [(26, 70)]"
proof -
  let ?i = "inp_at 100 (CHR ''a'') 1"
  let ?s = "start w0 0 0 0"
  let ?x = "deploy (now ?i) (random_column ?i) (placed (fire (now ?i) ?s) 69)"
  have sw: "switch_move (move ?i) (shooter_position ?s) = Some 69"
    by (simp add: switch_move_def)
  have ms: "milliseconds (now ?i - last_frame_time ?s) < 500"
    by (simp add: milliseconds_def trunc_div_def)
  have f: "milliseconds (now ?i - last_bullet_time ?s) \<ge> 100"
    by (simp add: milliseconds_def trunc_div_def)
  have t: "tick ?s ?i = Running (frame ?x)" by (rule tick_no_descent [OF sw ms])
  have ok: "board_ok (space ?x)" by (simp add: space_deploy)
  have bx: "bullets ?x = [(27, 70)]" using f by simp
  have c: "cell (space ?x) 26 70 = EMPTY"
    using cell_before_descent [of ?s 69 1 "now ?i" "now ?i" 26 70] by simp
  have "bullets (frame ?x) = map bullet_up (filter (bullet_flies (space ?x)) [(27, 70)])"
    unfolding frame_eq bx by (rule bullet_step_bullets [OF ok]) simp
  also have "\<dots> = [(26, 70)]"
  proof -
    have "bullet_flies (space ?x) (27, 70)"
      unfolding bullet_flies_def using c by simp
    then show ?thesis by (simp add: bullet_up_def)
  qed
  finally have "bullets (frame ?x) = [(26, 70)]" .
  moreover have "shooter_position (frame ?x) = 69" by simp
  ultimately show ?thesis using t f by simp
qed

text \<open>
  C7, as the code has it: from a board with the shooter in column \<open>70\<close>, no enemy and no
  bullet, the firing gate of the iteration in which the firing interval elapses
  enqueues exactly one bullet, at \<open>(27, 70)\<close>, one row above the shooter; the advancement
  step of the same iteration moves it, so that after the iteration exactly one bullet
  exists and its position is \<open>(26, 70)\<close>, two rows above the shooter. This holds for every
  key but \<open>q\<close>, and also when the spawn and descent gates open in the same iteration.
\<close>
theorem first_bullet_position:
  assumes "board_ok (space s)" and "enemies (space s) = 0"
    and "shooter_position s = 70" and "bullets s = []"
    and "input_ok inp" and "move inp \<noteq> CHR ''q''"
    and "milliseconds (now inp - last_bullet_time s) \<ge> 100"
  shows "bullets (fire (now inp) s) = [(27, 70)] \<and>
         (\<exists>s'. tick s inp = Running s' \<and> bullets s' = [(26, 70)])"
proof -
  have "\<exists>p. switch_move (move inp) (shooter_position s) = Some p \<and> p < 160"
    using assms(3,6) by (simp add: switch_move_def cols_def)
  then obtain p where sw: "switch_move (move inp) (shooter_position s) = Some p" and p: "p < 160"
    by blast
  let ?x = "deploy (now inp) (random_column inp) (placed (fire (now inp) s) p)"
  have rc: "random_column inp < 160" using assms(5) by (simp add: input_ok_def)
  have bx: "bullets ?x = [(27, 70)]" using assms(3,4,7) by simp
  have ok: "board_ok (space ?x)" using assms(1) by (simp add: space_deploy)
  have ne: "cell (space s) r k \<noteq> ENEMY" if "r < 30" "k < 160" for r k
    using enemies_zero [OF assms(1,2) that] .
  have c: "\<And>r k. cell (space ?x) r k =
     (if seconds (now inp - last_deploy_time s) \<ge> 2 \<and> r = 1 \<and> k = random_column inp then ENEMY
      else if r = 28 \<and> k = p then SHOOTER
      else if r = 28 \<and> k = shooter_position s then EMPTY
      else cell (space s) r k)"
    using assms(1,3) p rc by (intro cell_before_descent) simp_all
  have low: "cell (space ?x) r k \<noteq> ENEMY" if "2 \<le> r" "r < 30" "k < 160" for r k
    using that ne [of r k] by (simp add: c)
  have step: "bullets (frame y) = [(26, 70)]"
    if "board_ok (space y)" "bullets y = [(27, 70)]" "cell (space y) 26 70 \<noteq> ENEMY" for y
  proof -
    have "bullets (frame y) = map bullet_up (filter (bullet_flies (space y)) [(27, 70)])"
      unfolding frame_eq that(2) by (rule bullet_step_bullets [OF that(1)]) simp
    moreover have "bullet_flies (space y) (27, 70)"
      using that(3) by (simp add: bullet_flies_def)
    ultimately show ?thesis by (simp add: bullet_up_def)
  qed
  have "\<exists>s'. tick s inp = Running s' \<and> bullets s' = [(26, 70)]"
  proof (cases "milliseconds (now inp - last_frame_time s) \<ge> 500")
    case False
    then have "tick s inp = Running (frame ?x)" using tick_no_descent [OF sw] by simp
    moreover have "bullets (frame ?x) = [(26, 70)]"
      using ok bx low [of 26 70] by (intro step) simp_all
    ultimately show ?thesis by blast
  next
    case True
    show ?thesis
    proof (cases "descend (space ?x)")
      case (Inl b)
      from descend_Inl_cause [OF ok Inl] obtain j where
        "1 \<le> j" "j \<le> 158" "cell (space ?x) 29 j = ENEMY \<or> cell (space ?x) 28 j = ENEMY"
        by blast
      with low [of 29 j] low [of 28 j] show ?thesis by simp
    next
      case (Inr b)
      from descend_one_row [OF ok] Inr have b: "one_row (space ?x) b" "board_ok b" by simp_all
      have "cell b 26 70 \<noteq> ENEMY"
      proof
        assume "cell b 26 70 = ENEMY"
        with b(1) have "cell (space ?x) 26 70 = ENEMY \<or> cell (space ?x) 25 70 = ENEMY"
          unfolding one_row_def by fastforce
        with low [of 26 70] low [of 25 70] show False by simp
      qed
      then have "bullets (frame (?x\<lparr>space := b, last_frame_time := now inp\<rparr>)) = [(26, 70)]"
        using b(2) bx by (intro step) simp_all
      with tick_descent_Inr [OF sw True Inr] show ?thesis by simp
    qed
  qed
  moreover have "bullets (fire (now inp) s) = [(27, 70)]" using assms(3,4,7) by simp
  ultimately show ?thesis by blast
qed

theorem first_bullet_position_witness:
  "board_ok (space (start w0 0 0 0)) \<and> enemies (space (start w0 0 0 0)) = 0 \<and>
   shooter_position (start w0 0 0 0) = 70 \<and> bullets (start w0 0 0 0) = [] \<and>
   input_ok (inp_at 100 NO_KEY 1) \<and> move (inp_at 100 NO_KEY 1) \<noteq> CHR ''q'' \<and>
   milliseconds (now (inp_at 100 NO_KEY 1) - last_bullet_time (start w0 0 0 0)) \<ge> 100 \<and>
   bullets (fire (now (inp_at 100 NO_KEY 1)) (start w0 0 0 0)) = [(27, 70)] \<and>
   bullets (state_of (tick (start w0 0 0 0) (inp_at 100 NO_KEY 1))) = [(26, 70)]"
proof -
  let ?i = "inp_at 100 NO_KEY 1"
  let ?s = "start w0 0 0 0"
  have h: "board_ok (space ?s)" "enemies (space ?s) = 0" "shooter_position ?s = 70"
    "bullets ?s = []" "input_ok ?i" "move ?i \<noteq> CHR ''q''"
    "milliseconds (now ?i - last_bullet_time ?s) \<ge> 100"
    by (simp_all add: input_ok_def milliseconds_def trunc_div_def)
  from first_bullet_position [OF h] h show ?thesis by auto
qed

text \<open>
  C7 as stated fails: after the first iteration in which the firing interval has
  elapsed, the one bullet is at \<open>(26, 70)\<close>, not at \<open>(27, 70)\<close>.
\<close>
theorem first_bullet_is_not_in_row_27:
  "milliseconds (now (inp_at 100 NO_KEY 5) - last_bullet_time (start w0 0 0 0)) \<ge> 100 \<and>
   tick (start w0 0 0 0) (inp_at 100 NO_KEY 5) =
     Running (state_of (tick (start w0 0 0 0) (inp_at 100 NO_KEY 5))) \<and>
   bullets (state_of (tick (start w0 0 0 0) (inp_at 100 NO_KEY 5))) = [(26, 70)] \<and>
   bullets (state_of (tick (start w0 0 0 0) (inp_at 100 NO_KEY 5))) \<noteq> [(28 - 1, 70)]"
proof -
  let ?i = "inp_at 100 NO_KEY 5"
  let ?s = "start w0 0 0 0"
  let ?x = "deploy (now ?i) (random_column ?i) (placed (fire (now ?i) ?s) 70)"
  have sw: "switch_move (move ?i) (shooter_position ?s) = Some 70"
    by (simp add: switch_move_def)
  have ms: "milliseconds (now ?i - last_frame_time ?s) < 500"
    by (simp add: milliseconds_def trunc_div_def)
  have f: "milliseconds (now ?i - last_bullet_time ?s) \<ge> 100"
    by (simp add: milliseconds_def trunc_div_def)
  have t: "tick ?s ?i = Running (frame ?x)" by (rule tick_no_descent [OF sw ms])
  have ok: "board_ok (space ?x)" by (simp add: space_deploy)
  have bx: "bullets ?x = [(27, 70)]" using f by simp
  have c: "cell (space ?x) 26 70 = EMPTY"
    using cell_before_descent [of ?s 70 5 "now ?i" "now ?i" 26 70] by simp
  have "bullets (frame ?x) = map bullet_up (filter (bullet_flies (space ?x)) [(27, 70)])"
    unfolding frame_eq bx by (rule bullet_step_bullets [OF ok]) simp
  also have "\<dots> = [(26, 70)]"
  proof -
    have "bullet_flies (space ?x) (27, 70)"
      unfolding bullet_flies_def using c by simp
    then show ?thesis by (simp add: bullet_up_def)
  qed
  finally have "bullets (frame ?x) = [(26, 70)]" .
  then show ?thesis using t f by simp
qed

text \<open>
  C9: at the end of every iteration, however it ends, the shooter's cell
  \<open>(28, shooter_position)\<close> does not hold an enemy; when the iteration goes on running
  the cell holds the shooter's glyph. The glyph is written whatever the cell held: when
  the key moves the shooter to column \<open>p\<close> and the only enemy of row \<open>28\<close> (if any) stands
  in that very cell, the move is made, the enemy is gone, and the iteration goes on
  running, also when the descent gate opens in it: the enemy neither blocks the move nor
  loses the game.
\<close>
theorem shooter_cell_overwrites:
  assumes "inv s" and "input_ok inp"
  shows "cell (space (state_of (tick s inp))) 28 (shooter_position (state_of (tick s inp))) \<noteq> ENEMY \<and>
         (\<forall>s'. tick s inp = Running s' \<longrightarrow> cell (space s') 28 (shooter_position s') = SHOOTER) \<and>
         (\<forall>p. switch_move (move inp) (shooter_position s) = Some p \<and>
               (\<forall>j. 1 \<le> j \<and> j \<le> cols - 2 \<and> j \<noteq> p \<longrightarrow> cell (space s) 28 j \<noteq> ENEMY) \<longrightarrow>
               (\<exists>s'. tick s inp = Running s' \<and> shooter_position s' = p \<and>
                     cell (space s') 28 p = SHOOTER))"
proof -
  from assms(1) have a: "board_ok (space s)" "border_clear (space s)"
    "1 \<le> shooter_position s" "shooter_position s \<le> 158"
    by (simp_all add: inv_def cols_def)
  have rc: "random_column inp < 160" using assms(2) by (simp add: input_ok_def)
  have placed_cell: "cell (space (deploy (now inp) (random_column inp) (placed (fire (now inp) s) p))) 28 k =
           (if k = p then SHOOTER else if k = shooter_position s then EMPTY else cell (space s) 28 k)"
    if "p < 160" for p k
    using a that rc by (subst cell_before_descent) simp_all
  have 1: "cell (space s') 28 (shooter_position s') = SHOOTER" if t: "tick s inp = Running s'" for s'
  proof -
    from tick_running_cases [OF t] obtain p x where
      x: "switch_move (move inp) (shooter_position s) = Some p" "s' = frame x"
        "shooter_position x = p" "bullets x = bullets (fire (now inp) s)"
        "space x = space (deploy (now inp) (random_column inp) (placed (fire (now inp) s) p)) \<or>
         descend (space (deploy (now inp) (random_column inp) (placed (fire (now inp) s) p)))
           = Inr (space x)"
      by blast
    let ?x = "deploy (now inp) (random_column inp) (placed (fire (now inp) s) p)"
    from mid_before_descent [OF assms x(1)] have m: "board_ok (space ?x)" "bullets_live (bullets ?x)"
      by (simp_all add: mid_def)
    from switch_move_range [OF _ _ x(1)] a have p: "p < 160" by (simp add: cols_def)
    have sx: "cell (space ?x) 28 p = SHOOTER" by (simp add: placed_cell [OF p])
    have "board_ok (space x) \<and> cell (space x) 28 p = SHOOTER"
      using x(5)
    proof
      assume "space x = space ?x"
      with m sx show ?thesis by simp
    next
      assume d: "descend (space ?x) = Inr (space x)"
      with descend_keeps_shooter [OF m(1) sx] descend_one_row [OF m(1)] show ?thesis by simp
    qed
    moreover have "bullets_live (bullets x)" using m(2) x(4) by simp
    ultimately have "cell (space (frame x)) 28 p = SHOOTER"
      by (intro frame_keeps_shooter) simp_all
    with x(2,3) show ?thesis by simp
  qed
  have 2: "\<exists>s'. tick s inp = Running s' \<and> shooter_position s' = p \<and> cell (space s') 28 p = SHOOTER"
    if sw: "switch_move (move inp) (shooter_position s) = Some p"
      and free: "\<forall>j. 1 \<le> j \<and> j \<le> cols - 2 \<and> j \<noteq> p \<longrightarrow> cell (space s) 28 j \<noteq> ENEMY" for p
  proof -
    let ?x = "deploy (now inp) (random_column inp) (placed (fire (now inp) s) p)"
    from mid_before_descent [OF assms sw] have m: "board_ok (space ?x)" "border_clear (space ?x)"
      by (simp_all add: mid_def)
    from switch_move_range [OF _ _ sw] a have p: "p < 160" by (simp add: cols_def)
    have "\<exists>s'. tick s inp = Running s'"
    proof (cases "milliseconds (now inp - last_frame_time s) \<ge> 500")
      case False
      then show ?thesis using tick_no_descent [OF sw] by simp
    next
      case True
      show ?thesis
      proof (cases "descend (space ?x)")
        case (Inr b)
        with tick_descent_Inr [OF sw True] show ?thesis by simp
      next
        case (Inl b)
        from descend_Inl_cause [OF m(1) Inl] obtain j where
          j: "1 \<le> j" "j \<le> 158" "cell (space ?x) 29 j = ENEMY \<or> cell (space ?x) 28 j = ENEMY"
          by blast
        have "cell (space ?x) 29 j = EMPTY"
          using m(2) j(2) by (simp add: border_clear_iff)
        with j(3) have "cell (space ?x) 28 j = ENEMY" by simp
        with free j(1,2) show ?thesis
          by (auto simp: placed_cell [OF p] cols_def split: if_splits)
      qed
    qed
    then obtain s' where t: "tick s inp = Running s'" ..
    from 1 [OF t] shooter_tick [of s inp] sw t show ?thesis by simp
  qed
  have 3: "cell (space (state_of (tick s inp))) 28 (shooter_position (state_of (tick s inp))) \<noteq> ENEMY"
  proof (cases "tick s inp")
    case (Running s')
    with 1 show ?thesis by simp
  next
    case (Exited r s' st)
    show ?thesis
    proof (cases "switch_move (move inp) (shooter_position s)")
      case None
      with Exited have "space s' = set_cell (space s) 28 (shooter_position s) EMPTY"
        "shooter_position s' = shooter_position s"
        by (auto simp: tick_eq)
      with a Exited show ?thesis by (simp add: cell_set_cell_ok)
    next
      case (Some p)
      let ?x = "deploy (now inp) (random_column inp) (placed (fire (now inp) s) p)"
      from mid_before_descent [OF assms Some] have m: "board_ok (space ?x)" by (simp add: mid_def)
      from switch_move_range [OF _ _ Some] a have p: "p < 160" by (simp add: cols_def)
      have sx: "cell (space ?x) 28 p = SHOOTER" by (simp add: placed_cell [OF p])
      from Exited Some have "descent (now inp) ?x = Exited r s' st" by (simp add: tick_eq)
      then obtain b where "descend (space ?x) = Inl b" "space s' = b" "shooter_position s' = p"
        by (cases "descend (space ?x)") (auto simp: descent_def update_board_def split: if_splits)
      with descend_keeps_shooter [OF m sx] Exited show ?thesis by simp
    qed
  qed
  from 1 2 3 show ?thesis by blast
qed

theorem shooter_cell_overwrites_witness:
  "inv enemy_beside \<and> input_ok (inp_at 500 (CHR ''a'') 1) \<and>
   cell (space enemy_beside) 28 69 = ENEMY \<and>
   switch_move (move (inp_at 500 (CHR ''a'') 1)) (shooter_position enemy_beside) = Some 69 \<and>
   tick enemy_beside (inp_at 500 (CHR ''a'') 1) =
     Running (state_of (tick enemy_beside (inp_at 500 (CHR ''a'') 1))) \<and>
   shooter_position (state_of (tick enemy_beside (inp_at 500 (CHR ''a'') 1))) = 69 \<and>
   cell (space (state_of (tick enemy_beside (inp_at 500 (CHR ''a'') 1)))) 28 69 = SHOOTER \<and>
   cell (space (state_of (tick enemy_beside (inp_at 500 (CHR ''a'') 1)))) 28
     (shooter_position (state_of (tick enemy_beside (inp_at 500 (CHR ''a'') 1)))) \<noteq> ENEMY"
proof -
  let ?i = "inp_at 500 (CHR ''a'') 1"
  have h: "inv enemy_beside" "input_ok ?i"
    by (simp_all add: inv_enemy_beside input_ok_def)
  have e: "cell (space enemy_beside) 28 69 = ENEMY"
    by (simp add: enemy_beside_def cell_set_cell)
  have sw: "switch_move (move ?i) (shooter_position enemy_beside) = Some 69"
    by (simp add: enemy_beside_def switch_move_def)
  have free: "\<forall>j. 1 \<le> j \<and> j \<le> cols - 2 \<and> j \<noteq> 69 \<longrightarrow> cell (space enemy_beside) 28 j \<noteq> ENEMY"
    by (simp add: enemy_beside_def cell_set_cell cols_def)
  from shooter_cell_overwrites [OF h] sw free
  have "\<exists>s'. tick enemy_beside ?i = Running s' \<and> shooter_position s' = 69 \<and>
              cell (space s') 28 69 = SHOOTER"
    by blast
  with h e sw shooter_cell_overwrites [OF h] show ?thesis by auto
qed






text \<open>
  C5, as the code has it. The rows are processed bottom-up and the test for the empty
  cell below is made when the enemy's own cell is processed. So in a descent that does
  not end the game every cell ends as \<open>descended\<close> says: an enemy moves down exactly when
  the cells below it are a run of enemies that ends at an empty cell, the enemy right
  above an enemy that moves follows it, and an enemy above anything else stays. In every
  descent, ended by a loss or not: an enemy above a cell that holds neither nothing nor
  an enemy stays; whatever non-empty glyph the cell below holds at the step blocks the
  step; a step that moves an enemy clears its source cell and sets its destination
  cell; every enemy stands afterwards where one stood before or one row below; and the
  number of enemies is unchanged, so that no two of them end in the same cell.
\<close>
theorem enemy_descent:
  assumes "board_ok sp"
  shows "(\<forall>b. descend sp = Inr b \<longrightarrow> (\<forall>r<rows. \<forall>c<cols. cell b r c = descended sp r c)) \<and>
         (\<forall>i j. cell sp i j = ENEMY \<and> cell sp (i + 1) j \<noteq> EMPTY \<and> cell sp (i + 1) j \<noteq> ENEMY \<longrightarrow>
            cell (board_of (descend sp)) i j = ENEMY) \<and>
         (\<forall>b i j. cell b (i + 1) j \<noteq> EMPTY \<longrightarrow> descend_cell b i j = b) \<and>
         (\<forall>b i j. board_ok b \<and> i < 29 \<and> j < 160 \<and> cell b i j = ENEMY \<and> cell b (i + 1) j = EMPTY \<longrightarrow>
            cell (descend_cell b i j) i j = EMPTY \<and> cell (descend_cell b i j) (i + 1) j = ENEMY) \<and>
         one_row sp (board_of (descend sp)) \<and>
         enemies (board_of (descend sp)) = enemies sp"
proof -
  have 1: "\<forall>r<rows. \<forall>c<cols. cell b r c = descended sp r c" if "descend sp = Inr b" for b
    using descend_descended [OF assms that] by (simp add: rows_def cols_def)
  have 2: "cell (board_of (descend sp)) i j = ENEMY"
    if "cell sp i j = ENEMY" "cell sp (i + 1) j \<noteq> EMPTY" "cell sp (i + 1) j \<noteq> ENEMY" for i j
    using descend_blocked [OF assms that] by simp
  from 1 2 descend_cell_blocked descend_cell_moves descend_one_row [OF assms]
    enemies_descend [OF assms]
  show ?thesis by blast
qed

theorem enemy_descent_witness:
  "board_ok enemy_on_shooter \<and>
   one_row enemy_on_shooter (board_of (descend enemy_on_shooter)) \<and>
   enemies (board_of (descend enemy_on_shooter)) = enemies enemy_on_shooter \<and>
   cell enemy_on_shooter 27 70 = ENEMY \<and> cell enemy_on_shooter (27 + 1) 70 = SHOOTER \<and>
   cell (board_of (descend enemy_on_shooter)) 27 70 = ENEMY"
proof -
  have h: "board_ok enemy_on_shooter" by simp
  have c: "cell enemy_on_shooter 27 70 = ENEMY" "cell enemy_on_shooter (27 + 1) 70 = SHOOTER"
    by (simp_all add: cell_enemy_on_shooter)
  from enemy_descent [OF h] h c show ?thesis by simp
qed

text \<open>
  C5 as stated fails in its first clause: the enemy at \<open>(5, 80)\<close> has the enemy at
  \<open>(6, 80)\<close> directly below it, not an empty cell, and it moves all the same: after the
  descent the cell \<open>(5, 80)\<close> is empty and the two enemies stand at \<open>(6, 80)\<close> and
  \<open>(7, 80)\<close>.
\<close>
theorem enemy_above_enemy_moves:
  "board_ok enemy_stack \<and> cell enemy_stack 5 80 = ENEMY \<and> cell enemy_stack (5 + 1) 80 = ENEMY \<and>
   descend enemy_stack = Inr (board_of (descend enemy_stack)) \<and>
   cell (board_of (descend enemy_stack)) 5 80 = EMPTY \<and>
   cell (board_of (descend enemy_stack)) 6 80 = ENEMY \<and>
   cell (board_of (descend enemy_stack)) 7 80 = ENEMY"
proof -
  have r: "descend enemy_stack = Inr (board_of (descend enemy_stack))"
  proof (cases "descend enemy_stack")
    case (Inl b)
    from descend_Inl_cause [OF board_ok_enemy_stack Inl] show ?thesis
      by (auto simp: cell_enemy_stack)
  next
    case (Inr b)
    then show ?thesis by simp
  qed
  have v7: "vacated enemy_stack 7 80"
    by (subst vacated.simps) (simp add: cell_enemy_stack)
  have v6: "vacated enemy_stack 6 80"
    using v7 by (subst vacated.simps) (simp add: cell_enemy_stack)
  have m4: "\<not> moves enemy_stack 4 80"
    by (simp add: moves_def cell_enemy_stack)
  have m: "moves enemy_stack 5 80" "moves enemy_stack 6 80" "\<not> moves enemy_stack 7 80"
    using v6 v7 by (simp_all add: moves_def cell_enemy_stack)
  have d: "descended enemy_stack 5 80 = EMPTY" "descended enemy_stack 6 80 = ENEMY"
    "descended enemy_stack 7 80 = ENEMY"
    using m m4 by (simp_all add: descended_def)
  from descend_descended [OF board_ok_enemy_stack r] d
  show ?thesis using r by (simp add: cell_enemy_stack)
qed

end
